theory Spec2Isabelle
  imports Main "HOL-Library.Word"
begin

unbundle bit_operations_syntax

section \<open>Identifiers, node records and distances\<close>

text \<open>
  \<^verbatim>\<open>enode.ID\<close> and \<^verbatim>\<open>TopicID\<close> are 32-byte arrays, read here as 256-bit words
  (byte 0 is the most significant one). A node record \<^verbatim>\<open>*enode.Node\<close> is immutable;
  only its identifier and its sequence number (a \<^verbatim>\<open>uint64\<close>) are inspected by the
  state machines, the remaining content of the record is the opaque \<open>Node_payload\<close>.
\<close>

type_synonym ID = "256 word"
type_synonym TopicID = "256 word"
type_synonym AbsTime = "64 word"
type_synonym Duration = "64 word"

record enode =
  Node_ID :: ID
  Node_Seq :: "64 word"
  Node_payload :: nat

text \<open>
  Modelled from the spec: \<^verbatim>\<open>enode.LogDist\<close> is not part of the sources at hand. The
  specification defines \<open>logdist(a, b) = 256 - leading_zero_bits(a XOR b)\<close> when
  \<open>a \<noteq> b\<close>, and \<open>0\<close> when \<open>a = b\<close>. \<open>leading_zero_bits_from k x\<close> counts
  the zero bits of \<open>x\<close> from bit \<open>k - 1\<close> downwards, up to the first set bit.
\<close>

fun leading_zero_bits_from :: "nat \<Rightarrow> ID \<Rightarrow> nat" where
  "leading_zero_bits_from 0 x = 0"
| "leading_zero_bits_from (Suc k) x =
     (if bit x k then 0 else Suc (leading_zero_bits_from k x))"

definition leading_zero_bits :: "ID \<Rightarrow> nat" where
  "leading_zero_bits x = leading_zero_bits_from 256 x"

definition LogDist :: "ID \<Rightarrow> ID \<Rightarrow> int" where
  "LogDist a b = (if a = b then 0 else 256 - int (leading_zero_bits (a XOR b)))"

text \<open>
  Modelled from the spec: \<^verbatim>\<open>enode.RandomID\<close> is not part of the sources at hand. The
  specification says: flip bit \<open>d - 1\<close> of the center, then randomize the bits below
  it; for \<open>d = 0\<close> return the center. The random bits are the argument \<open>rnd\<close>.
\<close>

definition RandomID :: "ID \<Rightarrow> int \<Rightarrow> ID \<Rightarrow> ID" where
  "RandomID center d rnd =
     (if d = 0 then center
      else (center XOR push_bit (nat d - 1) 1) XOR
           (take_bit (nat d - 1) center XOR take_bit (nat d - 1) rnd))"

text \<open>
  The iteration order of a Go map is unspecified. A loop that stops at the first entry
  it meets (\<^verbatim>\<open>for _, n := range m { ...; break }\<close>) is modelled with a chooser, an
  arbitrary function that is asked for one key of the set of eligible keys. A chooser
  that answers outside the set is overruled by the least key, so that every chooser
  stands for one possible iteration order, and every order is some chooser.
\<close>

type_synonym chooser = "ID set \<Rightarrow> ID"

definition range_first :: "chooser \<Rightarrow> ID set \<Rightarrow> ID" where
  "range_first ch S = (if ch S \<in> S then ch S else Min S)"

datatype RegAttemptState = Standby | Waiting | Registered

text \<open>The panics of the Go code, and the run-time panic of an index out of range.\<close>

datatype panic =
    PopResultEmpty
  | StandbyInHeap
  | StartRequestBadState RegAttemptState
  | BadIndex
  | DeleteNonExistent
  | IndexOutOfRange

text \<open>
  The configuration after \<^verbatim>\<open>withDefaults\<close> (which is not part of the sources at
  hand). \<open>Clock\<close> is the current reading of the monotonic clock
  \<^verbatim>\<open>cfg.Clock.Now()\<close>; the environment advances it between operations.
\<close>

record Config =
  Self :: ID
  Clock :: AbsTime
  RegBucketSize :: int
  SearchBucketSize :: int

section \<open>Search (search.go)\<close>

definition searchTableDepth :: nat where
  "searchTableDepth = 40"

record searchBucket =
  sb_dist :: int
  sb_new :: "ID \<rightharpoonup> enode"
  sb_asked :: "ID set"
  sb_numResults :: int

text \<open>
  The array \<^verbatim>\<open>[searchTableDepth]searchBucket\<close> is a function on indices; only the
  entries below \<open>searchTableDepth\<close> are ever read or written.
\<close>

record Search =
  s_topic :: TopicID
  s_cfg :: Config
  s_buckets :: "nat \<Rightarrow> searchBucket"
  resultBuffer :: "enode list"
  s_numResults :: int
  queriesWithoutNewNodes :: int

definition NewSearch :: "TopicID \<Rightarrow> Config \<Rightarrow> Search" where
  "NewSearch topic config =
     \<lparr> s_topic = topic, s_cfg = config,
       s_buckets = (\<lambda>i. \<lparr> sb_dist = 256 - int i, sb_new = Map.empty,
                            sb_asked = {}, sb_numResults = 0 \<rparr>),
       resultBuffer = [], s_numResults = 0, queriesWithoutNewNodes = 0 \<rparr>"

definition IsDone :: "Search \<Rightarrow> bool" where
  "IsDone s =
     (if length (resultBuffer s) > 0 then False
      else if list_ex (\<lambda>i. card (dom (sb_new (s_buckets s i))) > 0) [0..<searchTableDepth]
        then False
      else queriesWithoutNewNodes s \<ge> 2)"

text \<open>\<^verbatim>\<open>Search.bucket\<close> returns the address of a bucket; the model returns its index.\<close>

definition Search_bucket :: "Search \<Rightarrow> ID \<Rightarrow> int" where
  "Search_bucket s nid =
     (let dist = 256 - LogDist (s_topic s) nid
      in if dist > int searchTableDepth - 1 then int searchTableDepth - 1 else dist)"

definition contains :: "searchBucket \<Rightarrow> ID \<Rightarrow> bool" where
  "contains b nid = (nid \<in> dom (sb_new b) \<or> nid \<in> sb_asked b)"

definition count :: "searchBucket \<Rightarrow> int" where
  "count b = int (card (dom (sb_new b))) + int (card (sb_asked b))"

fun newer :: "enode option \<Rightarrow> enode option \<Rightarrow> enode option" where
  "newer None n2 = n2"
| "newer n1 None = n1"
| "newer (Some n1) (Some n2) = (if Node_Seq n1 \<ge> Node_Seq n2 then Some n1 else Some n2)"

definition add :: "searchBucket \<Rightarrow> enode \<Rightarrow> searchBucket" where
  "add b n =
     (let nid = Node_ID n
      in if nid \<in> sb_asked b then b
         else b\<lparr> sb_new := (sb_new b)(nid := newer (sb_new b nid) (Some n)) \<rparr>)"

definition setAsked :: "searchBucket \<Rightarrow> enode \<Rightarrow> searchBucket" where
  "setAsked b n =
     b\<lparr> sb_asked := insert (Node_ID n) (sb_asked b),
        sb_new := (sb_new b)(Node_ID n := None) \<rparr>"

fun Search_AddNodes_loop :: "Search \<Rightarrow> bool \<Rightarrow> enode list \<Rightarrow> Search \<times> bool" where
  "Search_AddNodes_loop s anyNewNode [] = (s, anyNewNode)"
| "Search_AddNodes_loop s anyNewNode (n # nodes) =
     (if Node_ID n = Self (s_cfg s) then Search_AddNodes_loop s anyNewNode nodes
      else
        let i = nat (Search_bucket s (Node_ID n));
            b = s_buckets s i;
            anyNewNode' = (if \<not> contains b (Node_ID n) then True else anyNewNode);
            s' = (if count b < SearchBucketSize (s_cfg s)
                  then s\<lparr> s_buckets := (s_buckets s)(i := add b n) \<rparr> else s)
        in Search_AddNodes_loop s' anyNewNode' nodes)"

definition Search_AddNodes :: "Search \<Rightarrow> enode option \<Rightarrow> enode list \<Rightarrow> Search" where
  "Search_AddNodes s src nodes =
     (let (s', anyNewNode) = Search_AddNodes_loop s False nodes
      in if \<not> anyNewNode
         then s'\<lparr> queriesWithoutNewNodes := queriesWithoutNewNodes s' + 1 \<rparr>
         else s'\<lparr> queriesWithoutNewNodes := 0 \<rparr>)"

definition QueryTarget :: "chooser \<Rightarrow> Search \<Rightarrow> enode option" where
  "QueryTarget ch s =
     (case find (\<lambda>i. dom (sb_new (s_buckets s i)) \<noteq> {}) [0..<searchTableDepth] of
        None \<Rightarrow> None
      | Some i \<Rightarrow> sb_new (s_buckets s i) (range_first ch (dom (sb_new (s_buckets s i)))))"

fun AddQueryResults_loop :: "Search \<Rightarrow> nat \<Rightarrow> enode list \<Rightarrow> Search" where
  "AddQueryResults_loop s i [] = s"
| "AddQueryResults_loop s i (n # results) =
     (if Node_ID n = Self (s_cfg s) then AddQueryResults_loop s i results
      else
        let b = s_buckets s i;
            s' = s\<lparr> s_buckets := (s_buckets s)(i := b\<lparr> sb_numResults := sb_numResults b + 1 \<rparr>),
                    s_numResults := s_numResults s + 1,
                    resultBuffer := resultBuffer s @ [n] \<rparr>
        in AddQueryResults_loop s' i results)"

definition AddQueryResults :: "Search \<Rightarrow> enode \<Rightarrow> enode list \<Rightarrow> Search" where
  "AddQueryResults s from results =
     (let i = nat (Search_bucket s (Node_ID from));
          s' = s\<lparr> s_buckets := (s_buckets s)(i := setAsked (s_buckets s i) from) \<rparr>
      in AddQueryResults_loop s' i results)"

definition PeekResult :: "Search \<Rightarrow> enode option" where
  "PeekResult s = (if length (resultBuffer s) > 0 then Some (resultBuffer s ! 0) else None)"

definition PopResult :: "Search \<Rightarrow> panic + Search" where
  "PopResult s =
     (if length (resultBuffer s) = 0 then Inl PopResultEmpty
      else Inr (s\<lparr> resultBuffer := drop 1 (resultBuffer s) \<rparr>))"

text \<open>
  The states a driver can bring a search into: it starts from \<open>NewSearch\<close> and calls
  the public operations in any order. \<open>QueryTarget\<close> and \<open>PeekResult\<close> only read.
\<close>

inductive search_reachable :: "Search \<Rightarrow> bool" where
  sr_new: "search_reachable (NewSearch topic config)"
| sr_AddNodes: "search_reachable s \<Longrightarrow> search_reachable (Search_AddNodes s src nodes)"
| sr_AddQueryResults: "search_reachable s \<Longrightarrow> search_reachable (AddQueryResults s from results)"
| sr_PopResult: "search_reachable s \<Longrightarrow> PopResult s = Inr s' \<Longrightarrow> search_reachable s'"

section \<open>Registration\<close>

definition regBucketMaxReplacements :: int where
  "regBucketMaxReplacements = 20"

definition regTableDepth :: nat where
  "regTableDepth = 40"

text \<open>
  Attempts are heap objects shared by pointer between a bucket's map, the heap and the
  driver. The model keeps them in a store \<open>r_atts\<close> from addresses to attempts;
  \<open>r_nalloc\<close> is the next address to allocate. The back pointer \<^verbatim>\<open>bucket\<close> of an
  attempt is the index of its bucket; \<^verbatim>\<open>count\<close> is an array indexed by the state.
\<close>

type_synonym addr = nat

record regBucket =
  rb_dist :: int
  rb_att :: "ID \<rightharpoonup> addr"
  rb_count :: "RegAttemptState \<Rightarrow> int"

record RegAttempt =
  State :: RegAttemptState
  NextTime :: AbsTime
  Node :: enode
  Ticket :: "8 word list"
  TotalWaitTime :: Duration
  index :: int
  bucket :: nat

record Registration =
  r_topic :: TopicID
  r_cfg :: Config
  r_buckets :: "nat \<Rightarrow> regBucket"
  r_heap :: "addr list"
  r_atts :: "addr \<Rightarrow> RegAttempt"
  r_nalloc :: addr

text \<open>The zero value of \<^verbatim>\<open>RegAttempt\<close>, which fills the store before allocation.\<close>

definition zero_attempt :: RegAttempt where
  "zero_attempt =
     \<lparr> State = Standby, NextTime = 0,
       Node = \<lparr> Node_ID = 0, Node_Seq = 0, Node_payload = 0 \<rparr>,
       Ticket = [], TotalWaitTime = 0, index = 0, bucket = 0 \<rparr>"

definition NewRegistration :: "TopicID \<Rightarrow> Config \<Rightarrow> Registration" where
  "NewRegistration topic config =
     \<lparr> r_topic = topic, r_cfg = config,
       r_buckets = (\<lambda>i. \<lparr> rb_dist = 256 - (int regTableDepth - 1) + int i,
                            rb_att = Map.empty, rb_count = (\<lambda>_. 0) \<rparr>),
       r_heap = [], r_atts = (\<lambda>_. zero_attempt), r_nalloc = 0 \<rparr>"

definition Topic :: "Registration \<Rightarrow> TopicID" where
  "Topic r = r_topic r"

text \<open>\<open>rnd\<close> are the random bits that \<^verbatim>\<open>enode.RandomID\<close> draws.\<close>

definition LookupTarget :: "Registration \<Rightarrow> ID \<Rightarrow> ID" where
  "LookupTarget r rnd =
     (let center = r_topic r
      in case find (\<lambda>i. rb_count (r_buckets r i) Registered = 0) [0..<regTableDepth] of
           Some i \<Rightarrow> RandomID center (rb_dist (r_buckets r i)) rnd
         | None \<Rightarrow> center)"

text \<open>\<^verbatim>\<open>Registration.bucket\<close> returns the address of a bucket; the model its index.\<close>

definition Registration_bucket :: "Registration \<Rightarrow> ID \<Rightarrow> int" where
  "Registration_bucket r nid =
     (let dist = LogDist (r_topic r) nid;
          index = dist - 256 + (int regTableDepth - 1)
      in if index < 0 then 0 else index)"

subsection \<open>regHeap and container/heap\<close>

definition Less :: "Registration \<Rightarrow> nat \<Rightarrow> nat \<Rightarrow> bool" where
  "Less r i j =
     word_sless (NextTime (r_atts r (r_heap r ! i))) (NextTime (r_atts r (r_heap r ! j)))"

definition set_index :: "Registration \<Rightarrow> addr \<Rightarrow> int \<Rightarrow> Registration" where
  "set_index r p k = r\<lparr> r_atts := (r_atts r)(p := (r_atts r p)\<lparr> index := k \<rparr>) \<rparr>"

definition Swap :: "Registration \<Rightarrow> nat \<Rightarrow> nat \<Rightarrow> Registration" where
  "Swap r i j =
     (let rh = r_heap r;
          rh' = rh[i := rh ! j, j := rh ! i];
          r1 = set_index (r\<lparr> r_heap := rh' \<rparr>) (rh' ! i) (int i)
      in set_index r1 (rh' ! j) (int j))"

definition regHeap_Push :: "Registration \<Rightarrow> addr \<Rightarrow> Registration" where
  "regHeap_Push r item =
     (let n = length (r_heap r)
      in (set_index r item (int n))\<lparr> r_heap := r_heap r @ [item] \<rparr>)"

definition regHeap_Pop :: "Registration \<Rightarrow> Registration \<times> addr" where
  "regHeap_Pop r =
     (let old = r_heap r;
          n = length old;
          item = old ! (n - 1)
      in ((set_index r item (- 1))\<lparr> r_heap := take (n - 1) old \<rparr>, item))"

text \<open>
  \<^verbatim>\<open>heap.up\<close>, \<^verbatim>\<open>heap.down\<close>, \<^verbatim>\<open>heap.Push\<close> and \<^verbatim>\<open>heap.Remove\<close> of the Go
  standard library. In \<^verbatim>\<open>up\<close> the parent of \<open>j = 0\<close> is \<open>(0 - 1) / 2 = 0\<close> in Go
  (division truncates) as it is on the naturals.
\<close>

function up :: "Registration \<Rightarrow> nat \<Rightarrow> Registration" where
  "up r j =
     (let i = (j - 1) div 2
      in if i = j \<or> \<not> Less r j i then r else up (Swap r i j) i)"
  by pat_completeness auto
termination
  by (relation "measure (\<lambda>(r, j). j)") auto

function down_loop :: "Registration \<Rightarrow> nat \<Rightarrow> nat \<Rightarrow> Registration \<times> nat" where
  "down_loop r i n =
     (let j1 = 2 * i + 1
      in if j1 \<ge> n then (r, i)
         else
           let j = (if j1 + 1 < n \<and> Less r (j1 + 1) j1 then j1 + 1 else j1)
           in if \<not> Less r j i then (r, i) else down_loop (Swap r i j) j n)"
  by pat_completeness auto
termination
  by (relation "measure (\<lambda>(r, i, n). n - i)") auto

definition down :: "Registration \<Rightarrow> nat \<Rightarrow> nat \<Rightarrow> Registration \<times> bool" where
  "down r i0 n = (let (r', i) = down_loop r i0 n in (r', i > i0))"

definition heap_Push :: "Registration \<Rightarrow> addr \<Rightarrow> Registration" where
  "heap_Push r x = (let r1 = regHeap_Push r x in up r1 (length (r_heap r1) - 1))"

text \<open>
  \<^verbatim>\<open>heap.Remove(h, i)\<close> with an index outside the heap ends in a run-time panic
  (in \<^verbatim>\<open>Swap\<close>, or in \<^verbatim>\<open>Pop\<close> when the heap is empty).
\<close>

definition heap_Remove :: "Registration \<Rightarrow> int \<Rightarrow> panic + Registration" where
  "heap_Remove r i =
     (if i < 0 \<or> int (length (r_heap r)) \<le> i then Inl IndexOutOfRange
      else
        let n = length (r_heap r) - 1;
            r1 = (if n \<noteq> nat i
                  then (let (r2, moved) = down (Swap r (nat i) n) (nat i) n
                        in if \<not> moved then up r2 (nat i) else r2)
                  else r)
        in Inr (fst (regHeap_Pop r1)))"

subsection \<open>The operations of Registration\<close>

definition setAttemptState :: "Registration \<Rightarrow> addr \<Rightarrow> RegAttemptState \<Rightarrow> Registration" where
  "setAttemptState r att state =
     (let a = r_atts r att;
          b = bucket a;
          c = rb_count (r_buckets r b);
          c1 = c(State a := c (State a) - 1);
          c2 = c1(state := c1 state + 1)
      in r\<lparr> r_buckets := (r_buckets r)(b := (r_buckets r b)\<lparr> rb_count := c2 \<rparr>),
            r_atts := (r_atts r)(att := a\<lparr> State := state \<rparr>) \<rparr>)"

definition standby_ids :: "Registration \<Rightarrow> nat \<Rightarrow> ID set" where
  "standby_ids r b =
     {nid. case rb_att (r_buckets r b) nid of
             None \<Rightarrow> False
           | Some att \<Rightarrow> State (r_atts r att) = Standby}"

definition refillAttempts :: "chooser \<Rightarrow> Registration \<Rightarrow> nat \<Rightarrow> Registration" where
  "refillAttempts ch r b =
     (if rb_count (r_buckets r b) Waiting \<ge> RegBucketSize (r_cfg r) then r
      else if standby_ids r b = {} then r
      else
        case rb_att (r_buckets r b) (range_first ch (standby_ids r b)) of
          None \<Rightarrow> r
        | Some att \<Rightarrow>
            let r1 = setAttemptState r att Waiting;
                r2 = r1\<lparr> r_atts := (r_atts r1)
                        (att := (r_atts r1 att)\<lparr> NextTime := Clock (r_cfg r1) \<rparr>) \<rparr>
            in heap_Push r2 att)"

definition AddNode :: "chooser \<Rightarrow> Registration \<Rightarrow> enode \<Rightarrow> Registration" where
  "AddNode ch r n =
     (let nid = Node_ID n
      in if nid = Self (r_cfg r) then r
         else
           let b = nat (Registration_bucket r nid);
               bk = r_buckets r b
           in case rb_att bk nid of
                Some attempt \<Rightarrow>
                  if Node_Seq (Node (r_atts r attempt)) < Node_Seq n
                  then r\<lparr> r_atts := (r_atts r)(attempt := (r_atts r attempt)\<lparr> Node := n \<rparr>) \<rparr>
                  else r
              | None \<Rightarrow>
                  if rb_count bk Standby \<ge> regBucketMaxReplacements then r
                  else
                    let att = r_nalloc r;
                        a = \<lparr> State = Standby, NextTime = 0, Node = n, Ticket = [],
                              TotalWaitTime = 0, index = - 1, bucket = b \<rparr>;
                        bk' = bk\<lparr> rb_att := (rb_att bk)(nid \<mapsto> att),
                                  rb_count := (rb_count bk)(State a := rb_count bk (State a) + 1) \<rparr>;
                        r1 = r\<lparr> r_atts := (r_atts r)(att := a), r_nalloc := Suc att,
                                r_buckets := (r_buckets r)(b := bk') \<rparr>
                    in refillAttempts ch r1 (bucket (r_atts r1 att)))"

fun Registration_AddNodes :: "chooser \<Rightarrow> Registration \<Rightarrow> enode list \<Rightarrow> Registration" where
  "Registration_AddNodes ch r [] = r"
| "Registration_AddNodes ch r (n # nodes) = Registration_AddNodes ch (AddNode ch r n) nodes"

definition removeAttempt :: "Registration \<Rightarrow> addr \<Rightarrow> panic + Registration" where
  "removeAttempt r att =
     (let nid = Node_ID (Node (r_atts r att))
      in if rb_att (r_buckets r (bucket (r_atts r att))) nid \<noteq> Some att
         then Inl DeleteNonExistent
         else
           case (if index (r_atts r att) \<ge> 0 then heap_Remove r (index (r_atts r att))
                 else Inr r) of
             Inl e \<Rightarrow> Inl e
           | Inr r1 \<Rightarrow>
               let a = r_atts r1 att;
                   bk = r_buckets r1 (bucket a)
               in Inr (r1\<lparr> r_buckets := (r_buckets r1)
                         (bucket a := bk\<lparr> rb_att := (rb_att bk)(nid := None),
                                         rb_count := (rb_count bk)
                                           (State a := rb_count bk (State a) - 1) \<rparr>) \<rparr>))"

text \<open>
  \<^verbatim>\<open>Update\<close>: every branch of the \<^verbatim>\<open>switch\<close> returns, so the body of the loop
  \<^verbatim>\<open>for len(r.heap) > 0\<close> runs at most once.
\<close>

definition Update :: "chooser \<Rightarrow> Registration \<Rightarrow> panic + (Registration \<times> addr option)" where
  "Update ch r =
     (let now = Clock (r_cfg r)
      in if length (r_heap r) > 0
         then
           let att = r_heap r ! 0
           in case State (r_atts r att) of
                Standby \<Rightarrow> Inl StandbyInHeap
              | Registered \<Rightarrow>
                  if word_sle (NextTime (r_atts r att)) now
                  then case removeAttempt r att of
                         Inl e \<Rightarrow> Inl e
                       | Inr r1 \<Rightarrow> Inr (refillAttempts ch r1 (bucket (r_atts r1 att)), None)
                  else Inr (r, None)
              | Waiting \<Rightarrow>
                  if word_sle (NextTime (r_atts r att)) now then Inr (r, Some att)
                  else Inr (r, None)
         else Inr (r, None))"

definition StartRequest :: "Registration \<Rightarrow> addr \<Rightarrow> panic + Registration" where
  "StartRequest r att =
     (if State (r_atts r att) \<noteq> Waiting then Inl (StartRequestBadState (State (r_atts r att)))
      else case heap_Remove r (index (r_atts r att)) of
             Inl e \<Rightarrow> Inl e
           | Inr r1 \<Rightarrow> Inr (set_index r1 att (- 2)))"

definition validate :: "Registration \<Rightarrow> addr \<Rightarrow> panic + unit" where
  "validate r att = (if index (r_atts r att) \<noteq> - 2 then Inl BadIndex else Inr ())"

definition HandleTicketResponse ::
  "Registration \<Rightarrow> addr \<Rightarrow> 8 word list \<Rightarrow> Duration \<Rightarrow> panic + Registration" where
  "HandleTicketResponse r att ticket waitTime =
     (case validate r att of
        Inl e \<Rightarrow> Inl e
      | Inr _ \<Rightarrow>
          let r1 = r\<lparr> r_atts := (r_atts r)(att := (r_atts r att)\<lparr> Ticket := ticket \<rparr>) \<rparr>;
              r2 = r1\<lparr> r_atts := (r_atts r1)
                      (att := (r_atts r1 att)\<lparr> NextTime := Clock (r_cfg r1) + waitTime \<rparr>) \<rparr>
          in Inr (heap_Push r2 att))"

definition HandleRegistered ::
  "chooser \<Rightarrow> Registration \<Rightarrow> addr \<Rightarrow> Duration \<Rightarrow> panic + Registration" where
  "HandleRegistered ch r att ttl =
     (case validate r att of
        Inl e \<Rightarrow> Inl e
      | Inr _ \<Rightarrow>
          let r1 = setAttemptState r att Registered;
              r2 = r1\<lparr> r_atts := (r_atts r1)
                      (att := (r_atts r1 att)\<lparr> NextTime := Clock (r_cfg r1) + ttl \<rparr>) \<rparr>;
              r3 = heap_Push r2 att
          in Inr (refillAttempts ch r3 (bucket (r_atts r3 att))))"

definition HandleErrorResponse ::
  "chooser \<Rightarrow> Registration \<Rightarrow> addr \<Rightarrow> panic + Registration" where
  "HandleErrorResponse ch r att =
     (case validate r att of
        Inl e \<Rightarrow> Inl e
      | Inr _ \<Rightarrow>
          (case removeAttempt r att of
             Inl e \<Rightarrow> Inl e
           | Inr r1 \<Rightarrow> Inr (refillAttempts ch r1 (bucket (r_atts r1 att)))))"

text \<open>The environment advances the clock between two operations.\<close>

definition advance_clock :: "Registration \<Rightarrow> AbsTime \<Rightarrow> Registration" where
  "advance_clock r t = r\<lparr> r_cfg := (r_cfg r)\<lparr> Clock := t \<rparr> \<rparr>"

text \<open>
  The states a driver can bring a registration into: it starts from
  \<open>NewRegistration\<close> and calls the public operations in any order, on attempts that
  this registration has created (the fields \<^verbatim>\<open>index\<close> and \<^verbatim>\<open>bucket\<close> are not
  exported, so the driver has no other attempts that pass \<^verbatim>\<open>validate\<close>). A call
  that panics ends the run. \<open>Topic\<close> and \<open>LookupTarget\<close> only read.
\<close>

inductive reg_reachable :: "Registration \<Rightarrow> bool" where
  rr_new: "reg_reachable (NewRegistration topic config)"
| rr_clock: "reg_reachable r \<Longrightarrow> reg_reachable (advance_clock r t)"
| rr_AddNodes: "reg_reachable r \<Longrightarrow> reg_reachable (Registration_AddNodes ch r nodes)"
| rr_Update: "reg_reachable r \<Longrightarrow> Update ch r = Inr (r', res) \<Longrightarrow> reg_reachable r'"
| rr_StartRequest:
    "reg_reachable r \<Longrightarrow> att < r_nalloc r \<Longrightarrow> StartRequest r att = Inr r' \<Longrightarrow> reg_reachable r'"
| rr_HandleTicketResponse:
    "reg_reachable r \<Longrightarrow> att < r_nalloc r \<Longrightarrow>
     HandleTicketResponse r att ticket waitTime = Inr r' \<Longrightarrow> reg_reachable r'"
| rr_HandleRegistered:
    "reg_reachable r \<Longrightarrow> att < r_nalloc r \<Longrightarrow>
     HandleRegistered ch r att ttl = Inr r' \<Longrightarrow> reg_reachable r'"
| rr_HandleErrorResponse:
    "reg_reachable r \<Longrightarrow> att < r_nalloc r \<Longrightarrow>
     HandleErrorResponse ch r att = Inr r' \<Longrightarrow> reg_reachable r'"

section \<open>Invariants and derived notions\<close>

subsection \<open>Search\<close>

text \<open>
  No identifier is both a candidate and asked, in any bucket.
\<close>

definition search_inv :: "Search \<Rightarrow> bool" where
  "search_inv s = (\<forall>i. dom (sb_new (s_buckets s i)) \<inter> sb_asked (s_buckets s i) = {})"

subsection \<open>The heap of attempts\<close>

text \<open>
  The heap operations write only the \<open>index\<close> field of attempts. \<open>heap_frame T r r'\<close>:
  from \<open>r\<close> to \<open>r'\<close> nothing but the heap and the \<open>index\<close> of attempts in \<open>T\<close> has
  changed. \<open>heap_inv\<close>: the attempt at position \<open>k\<close> of the heap has \<open>index\<close> \<open>k\<close>, and an
  allocated attempt with a non-negative \<open>index\<close> is on the heap at that position.
\<close>

definition core :: "RegAttempt \<Rightarrow> RegAttempt" where
  "core a = a\<lparr> index := 0 \<rparr>"

definition heap_frame :: "addr set \<Rightarrow> Registration \<Rightarrow> Registration \<Rightarrow> bool" where
  "heap_frame T r r' =
     (r_buckets r' = r_buckets r \<and> r_cfg r' = r_cfg r \<and> r_topic r' = r_topic r \<and>
      r_nalloc r' = r_nalloc r \<and>
      (\<forall>p. core (r_atts r' p) = core (r_atts r p)) \<and>
      (\<forall>p. p \<notin> T \<longrightarrow> r_atts r' p = r_atts r p))"

definition heap_inv :: "Registration \<Rightarrow> bool" where
  "heap_inv r =
     ((\<forall>k. k < length (r_heap r) \<longrightarrow>
         r_heap r ! k < r_nalloc r \<and> index (r_atts r (r_heap r ! k)) = int k) \<and>
      (\<forall>p. p < r_nalloc r \<longrightarrow> 0 \<le> index (r_atts r p) \<longrightarrow>
         nat (index (r_atts r p)) < length (r_heap r) \<and>
         r_heap r ! nat (index (r_atts r p)) = p))"

definition heap_step :: "Registration \<Rightarrow> Registration \<Rightarrow> bool" where
  "heap_step r r' =
     (heap_inv r' \<and> heap_frame (set (r_heap r)) r r' \<and>
      set (r_heap r') = set (r_heap r) \<and> length (r_heap r') = length (r_heap r))"

declare up.simps [simp del] down_loop.simps [simp del]

text \<open>
  The child that one round of the loop of \<^verbatim>\<open>down\<close> compares with, and the sifting that
  \<^verbatim>\<open>heap.Remove\<close> does before it pops the last element.
\<close>

definition down_child :: "Registration \<Rightarrow> nat \<Rightarrow> nat \<Rightarrow> nat" where
  "down_child r i n =
     (if 2 * i + 1 + 1 < n \<and> Less r (2 * i + 1 + 1) (2 * i + 1) then 2 * i + 1 + 1 else 2 * i + 1)"

definition remove_sift :: "Registration \<Rightarrow> nat \<Rightarrow> Registration" where
  "remove_sift r i =
     (let n = length (r_heap r) - 1
      in if n \<noteq> i
         then (let (r2, moved) = down (Swap r i n) i n in if \<not> moved then up r2 i else r2)
         else r)"

subsection \<open>Buckets and attempts\<close>

text \<open>
  \<open>state_ids r b s\<close> are the identifiers that bucket \<open>b\<close> links to an attempt in state
  \<open>s\<close>. The invariant \<open>reg_inv\<close>: a link of bucket \<open>i\<close> under \<open>nid\<close> leads to an allocated
  attempt of that bucket and that identifier; the heap is consistent with the indices; a
  Standby attempt has index -1; the Standby count of a bucket is the number of its
  Standby links and at most \<open>regBucketMaxReplacements\<close>; bucket \<open>i\<close> has distance
  \<open>217 + i\<close> and holds only identifiers that \<^verbatim>\<open>Registration.bucket\<close> sends there.
\<close>

definition state_ids :: "Registration \<Rightarrow> nat \<Rightarrow> RegAttemptState \<Rightarrow> ID set" where
  "state_ids r b s =
     {nid. \<exists>att. rb_att (r_buckets r b) nid = Some att \<and> State (r_atts r att) = s}"

definition links_ok :: "Registration \<Rightarrow> bool" where
  "links_ok r =
     (\<forall>i nid p. rb_att (r_buckets r i) nid = Some p \<longrightarrow>
        p < r_nalloc r \<and> bucket (r_atts r p) = i \<and> Node_ID (Node (r_atts r p)) = nid)"

definition standby_ok :: "Registration \<Rightarrow> bool" where
  "standby_ok r =
     (\<forall>p. p < r_nalloc r \<longrightarrow> State (r_atts r p) = Standby \<longrightarrow> index (r_atts r p) = - 1)"

definition standby_counts_ok :: "Registration \<Rightarrow> bool" where
  "standby_counts_ok r =
     (\<forall>i. rb_count (r_buckets r i) Standby = int (card (state_ids r i Standby)) \<and>
          int (card (state_ids r i Standby)) \<le> regBucketMaxReplacements)"

definition layout_ok :: "Registration \<Rightarrow> bool" where
  "layout_ok r =
     ((\<forall>i. rb_dist (r_buckets r i) = 217 + int i) \<and>
      (\<forall>i nid. nid \<in> dom (rb_att (r_buckets r i)) \<longrightarrow>
         nid \<noteq> Self (r_cfg r) \<and> i = nat (Registration_bucket r nid)))"

definition reg_inv :: "Registration \<Rightarrow> bool" where
  "reg_inv r = (links_ok r \<and> heap_inv r \<and> standby_ok r \<and> standby_counts_ok r \<and> layout_ok r)"

text \<open>
  An attempt is live when its bucket links its identifier to it. \<open>counts_ok\<close>: every
  count of every bucket is the number of links to attempts in that state;
  \<open>registered_counts_ok\<close> is the part of it that \<open>LookupTarget\<close> reads.
\<close>

definition live :: "Registration \<Rightarrow> addr \<Rightarrow> bool" where
  "live r att =
     (rb_att (r_buckets r (bucket (r_atts r att))) (Node_ID (Node (r_atts r att))) = Some att)"

definition counts_ok :: "Registration \<Rightarrow> bool" where
  "counts_ok r = (\<forall>i s. rb_count (r_buckets r i) s = int (card (state_ids r i s)))"

definition registered_counts_ok :: "Registration \<Rightarrow> bool" where
  "registered_counts_ok r =
     (\<forall>i. i < regTableDepth \<longrightarrow>
        rb_count (r_buckets r i) Registered = int (card (state_ids r i Registered)))"

text \<open>
  Parts of the operations, named for the proofs: \<open>promote\<close> is the body of the loop of
  \<open>refillAttempts\<close>, \<open>link_new\<close> the allocation and linking of a new Standby attempt in
  \<open>AddNodes\<close>, \<open>unlink\<close> the deletion from the bucket at the end of \<open>removeAttempt\<close>, and
  \<open>registered\<close> what \<open>HandleRegistered\<close> does before it refills the bucket.
\<close>

definition promote :: "Registration \<Rightarrow> addr \<Rightarrow> Registration" where
  "promote r att =
     (let r1 = setAttemptState r att Waiting;
          r2 = r1\<lparr> r_atts := (r_atts r1)
                  (att := (r_atts r1 att)\<lparr> NextTime := Clock (r_cfg r1) \<rparr>) \<rparr>
      in heap_Push r2 att)"

definition link_new :: "Registration \<Rightarrow> enode \<Rightarrow> nat \<Rightarrow> Registration" where
  "link_new r n b =
     (let att = r_nalloc r;
          a = \<lparr> State = Standby, NextTime = 0, Node = n, Ticket = [],
                TotalWaitTime = 0, index = - 1, bucket = b \<rparr>;
          bk = r_buckets r b;
          bk' = bk\<lparr> rb_att := (rb_att bk)(Node_ID n \<mapsto> att),
                    rb_count := (rb_count bk)(State a := rb_count bk (State a) + 1) \<rparr>
      in r\<lparr> r_atts := (r_atts r)(att := a), r_nalloc := Suc att,
            r_buckets := (r_buckets r)(b := bk') \<rparr>)"

definition unlink :: "Registration \<Rightarrow> addr \<Rightarrow> ID \<Rightarrow> Registration" where
  "unlink r1 att nid =
     (let a = r_atts r1 att;
          bk = r_buckets r1 (bucket a)
      in r1\<lparr> r_buckets := (r_buckets r1)
            (bucket a := bk\<lparr> rb_att := (rb_att bk)(nid := None),
                            rb_count := (rb_count bk)(State a := rb_count bk (State a) - 1) \<rparr>) \<rparr>)"

definition registered :: "Registration \<Rightarrow> addr \<Rightarrow> Duration \<Rightarrow> Registration" where
  "registered r att ttl =
     (let r1 = setAttemptState r att Registered;
          r2 = r1\<lparr> r_atts := (r_atts r1)
                  (att := (r_atts r1 att)\<lparr> NextTime := Clock (r_cfg r1) + ttl \<rparr>) \<rparr>
      in heap_Push r2 att)"

text \<open>
  \<open>removed r a r'\<close>: from \<open>r\<close> to \<open>r'\<close> the attempt \<open>a\<close> has left the heap and its bucket, the
  count of its state is one less, and nothing else has changed but indices.
\<close>

definition removed :: "Registration \<Rightarrow> addr \<Rightarrow> Registration \<Rightarrow> bool" where
  "removed r a r' =
     (set (r_heap r') = set (r_heap r) - {a} \<and>
      (\<forall>i. rb_att (r_buckets r' i) =
         (if i = bucket (r_atts r a)
          then (rb_att (r_buckets r i))(Node_ID (Node (r_atts r a)) := None)
          else rb_att (r_buckets r i))) \<and>
      (\<forall>i s. rb_count (r_buckets r' i) s =
         (if i = bucket (r_atts r a) \<and> s = State (r_atts r a)
          then rb_count (r_buckets r i) s - 1 else rb_count (r_buckets r i) s)) \<and>
      (\<forall>i. rb_dist (r_buckets r' i) = rb_dist (r_buckets r i)) \<and>
      r_cfg r' = r_cfg r \<and> r_topic r' = r_topic r \<and> r_nalloc r' = r_nalloc r \<and>
      (\<forall>q. core (r_atts r' q) = core (r_atts r q)))"

subsection \<open>Runs in which every request is answered once\<close>

text \<open>
  \<open>reg_reachable\<close> lets the driver hand in a response for any allocated attempt that
  is in flight. In \<open>reg_run\<close> a ticket or a confirmation is handed in only for an attempt
  that is still live, which is the case when each request gets one response: an
  attempt in flight is not on the heap, so only \<open>HandleErrorResponse\<close> can remove it.
\<close>

inductive reg_run :: "Registration \<Rightarrow> bool" where
  run_new: "reg_run (NewRegistration topic config)"
| run_clock: "reg_run r \<Longrightarrow> reg_run (advance_clock r t)"
| run_AddNodes: "reg_run r \<Longrightarrow> reg_run (Registration_AddNodes ch r nodes)"
| run_Update: "reg_run r \<Longrightarrow> Update ch r = Inr (r', res) \<Longrightarrow> reg_run r'"
| run_StartRequest:
    "reg_run r \<Longrightarrow> att < r_nalloc r \<Longrightarrow> StartRequest r att = Inr r' \<Longrightarrow> reg_run r'"
| run_HandleTicketResponse:
    "reg_run r \<Longrightarrow> att < r_nalloc r \<Longrightarrow> live r att \<Longrightarrow>
     HandleTicketResponse r att ticket waitTime = Inr r' \<Longrightarrow> reg_run r'"
| run_HandleRegistered:
    "reg_run r \<Longrightarrow> att < r_nalloc r \<Longrightarrow> live r att \<Longrightarrow>
     HandleRegistered ch r att ttl = Inr r' \<Longrightarrow> reg_run r'"
| run_HandleErrorResponse:
    "reg_run r \<Longrightarrow> att < r_nalloc r \<Longrightarrow>
     HandleErrorResponse ch r att = Inr r' \<Longrightarrow> reg_run r'"

definition heap_live :: "Registration \<Rightarrow> bool" where
  "heap_live r = (\<forall>p \<in> set (r_heap r). live r p)"

definition run_inv :: "Registration \<Rightarrow> bool" where
  "run_inv r = (reg_inv r \<and> counts_ok r \<and> heap_live r)"

text \<open>
  All attempts have \<open>TotalWaitTime\<close> 0.
\<close>

definition wait_unwritten :: "Registration \<Rightarrow> bool" where
  "wait_unwritten r = (\<forall>p. TotalWaitTime (r_atts r p) = 0)"

section \<open>Concrete inputs\<close>

text \<open>
  A configuration with buckets of size 1 and local identifier 0; the identifier at
  distance 256 from 0; nodes with identifiers 1 and 2; the nodes \<open>mk_node k\<close> with
  identifier \<open>k\<close>; a map iteration that starts at identifier 0 when it is there.
\<close>

definition cfg0 :: Config where
  "cfg0 = \<lparr> Self = 0, Clock = 0, RegBucketSize = 1, SearchBucketSize = 1 \<rparr>"

definition far_id :: ID where
  "far_id = push_bit 255 1"

definition node1 :: enode where
  "node1 = \<lparr> Node_ID = 1, Node_Seq = 1, Node_payload = 0 \<rparr>"

definition node2 :: enode where
  "node2 = \<lparr> Node_ID = push_bit 1 1, Node_Seq = 1, Node_payload = 0 \<rparr>"

definition node1b :: enode where
  "node1b = \<lparr> Node_ID = 1, Node_Seq = 2, Node_payload = 7 \<rparr>"

definition mk_node :: "nat \<Rightarrow> enode" where
  "mk_node k = \<lparr> Node_ID = of_nat k, Node_Seq = 1, Node_payload = 0 \<rparr>"

definition ch0 :: chooser where
  "ch0 = (\<lambda>S. 0)"

text \<open>
  Registrations for topic 0: \<open>r_one\<close> after \<open>AddNodes\<close> of \<open>node1\<close>, whose attempt 0 is
  Waiting; \<open>r_full\<close> after twenty more nodes of the same bucket; \<open>r_flight\<close> after
  \<open>StartRequest\<close> of attempt 0; \<open>r_ticket\<close> and \<open>r_reg\<close>, what \<open>r_flight\<close> becomes with a
  ticket and a wait time of 5 s, and with a confirmation of lifetime 0; and \<open>r_bad\<close>,
  which is \<open>r_one\<close> with the attempt on the heap set to Standby by hand.
\<close>

definition r_one :: Registration where
  "r_one = Registration_AddNodes ch0 (NewRegistration 0 cfg0) [node1]"

definition r_full :: Registration where
  "r_full = Registration_AddNodes ch0 r_one (map mk_node [2..<22])"

definition r_flight :: Registration where
  "r_flight = (case StartRequest r_one 0 of Inr r \<Rightarrow> r | Inl e \<Rightarrow> r_one)"

definition r_ticket :: Registration where
  "r_ticket =
     (case HandleTicketResponse r_flight 0 [170] 5000000000 of Inr r \<Rightarrow> r | Inl e \<Rightarrow> r_flight)"

definition r_reg :: Registration where
  "r_reg = (case HandleRegistered ch0 r_flight 0 0 of Inr r \<Rightarrow> r | Inl e \<Rightarrow> r_flight)"

definition r_bad :: Registration where
  "r_bad = r_one\<lparr> r_atts := (r_atts r_one)(0 := (r_atts r_one 0)\<lparr> State := Standby \<rparr>) \<rparr>"

section \<open>Distances\<close>

lemma leading_zero_bits_from_le: "leading_zero_bits_from k x \<le> k"
  by (induction k) auto

lemma leading_zero_bits_from_top:
  "k < m \<Longrightarrow> bit x k \<Longrightarrow> (\<forall>j. k < j \<and> j < m \<longrightarrow> \<not> bit x j) \<Longrightarrow>
   leading_zero_bits_from m x = m - 1 - k"
proof (induction m)
  case 0
  then show ?case by simp
next
  case (Suc m)
  show ?case
  proof (cases "k = m")
    case True
    with Suc.prems show ?thesis by simp
  next
    case False
    with Suc.prems have "k < m" by simp
    moreover from Suc.prems have "\<not> bit x m" using False by auto
    moreover have "\<forall>j. k < j \<and> j < m \<longrightarrow> \<not> bit x j" using Suc.prems by auto
    ultimately show ?thesis using Suc.IH Suc.prems by simp
  qed
qed

lemma LogDist_range: "0 \<le> LogDist a b \<and> LogDist a b \<le> 256"
  using leading_zero_bits_from_le [of 256 "a XOR b"]
  by (simp add: LogDist_def leading_zero_bits_def)

lemma LogDist_self [simp]: "LogDist a a = 0"
  by (simp add: LogDist_def)

text \<open>The distance is the position of the highest bit in which the two differ, plus one.\<close>

lemma LogDist_top_bit:
  assumes "k < 256" "bit (a XOR b) k" "\<forall>j. k < j \<and> j < 256 \<longrightarrow> \<not> bit (a XOR b) j"
  shows "LogDist a b = int k + 1"
proof -
  have "a \<noteq> b" using assms(2) by auto
  moreover have "leading_zero_bits_from 256 (a XOR b) = 256 - 1 - k"
    using assms by (intro leading_zero_bits_from_top) auto
  ultimately show ?thesis using assms(1)
    by (simp add: LogDist_def leading_zero_bits_def)
qed

lemma LogDist_RandomID:
  assumes "0 < d" "d \<le> 256"
  shows "LogDist center (RandomID center d rnd) = d"
proof -
  let ?k = "nat d - 1"
  let ?x = "center XOR RandomID center d rnd"
  have k: "?k < 256" using assms by auto
  have b1: "bit ?x ?k"
    using assms k by (auto simp: RandomID_def bit_simps)
  have b2: "\<forall>j. ?k < j \<and> j < 256 \<longrightarrow> \<not> bit ?x j"
    using assms by (auto simp: RandomID_def bit_simps)
  have "LogDist center (RandomID center d rnd) = int ?k + 1"
    using k b1 b2 by (rule LogDist_top_bit)
  then show ?thesis using assms by simp
qed

lemma LogDist_far_id: "LogDist 0 far_id = 256"
proof -
  have "bit ((0::ID) XOR push_bit 255 1) 255"
    by (simp add: bit_simps)
  moreover have "\<forall>j. 255 < j \<and> j < 256 \<longrightarrow> \<not> bit ((0::ID) XOR push_bit 255 1) j"
    by auto
  ultimately show ?thesis
    using LogDist_top_bit [of 255 0 "push_bit 255 1"] by (simp add: far_id_def)
qed

section \<open>Search: termination test and bucket placement\<close>

lemma finite_ID_set [simp]: "finite (A :: ID set)"
  by simp

text \<open>
  C1. \<open>IsDone\<close> is true exactly when the result buffer is empty, the \<open>new\<close> map of
  every bucket is empty, and the last two lookups did not yield a new node
  (\<open>queriesWithoutNewNodes \<ge> 2\<close>); in every other state it is false.
\<close>

theorem IsDone_iff:
  "IsDone s \<longleftrightarrow>
     resultBuffer s = [] \<and>
     (\<forall>i. i < searchTableDepth \<longrightarrow> dom (sb_new (s_buckets s i)) = {}) \<and>
     queriesWithoutNewNodes s \<ge> 2"
  by (auto simp: IsDone_def list_ex_iff card_gt_0_iff)

theorem IsDone_iff_witness:
  "IsDone ((NewSearch 0 cfg0)\<lparr> queriesWithoutNewNodes := 2 \<rparr>) \<and>
   \<not> IsDone (NewSearch 0 cfg0)"
  using IsDone_iff [of "(NewSearch 0 cfg0)\<lparr> queriesWithoutNewNodes := 2 \<rparr>"]
    IsDone_iff [of "NewSearch 0 cfg0"]
  by (simp add: NewSearch_def)

text \<open>
  C2, as the code has it. The registration table places a node in bucket
  \<open>max 0 (logdist - 256 + 39)\<close>, the search table in bucket \<open>min 39 (256 - logdist)\<close>.
  In both tables the nodes at \<open>logdist \<le> 217\<close> are the ones that the clamp collects:
  in bucket 0 of the registration table, in bucket 39 of the search table. The index
  is within \<open>0..39\<close> for every node.
\<close>

theorem bucket_index:
  "Registration_bucket r n = max 0 (LogDist (r_topic r) n - 256 + 39) \<and>
   Search_bucket s n = min 39 (256 - LogDist (s_topic s) n) \<and>
   (LogDist (r_topic r) n \<le> 217 \<longrightarrow> Registration_bucket r n = 0) \<and>
   (LogDist (s_topic s) n \<le> 217 \<longrightarrow> Search_bucket s n = int searchTableDepth - 1) \<and>
   0 \<le> Registration_bucket r n \<and> Registration_bucket r n < int regTableDepth \<and>
   0 \<le> Search_bucket s n \<and> Search_bucket s n < int searchTableDepth"
  using LogDist_range [of "r_topic r" n] LogDist_range [of "s_topic s" n]
  by (simp add: Registration_bucket_def Search_bucket_def regTableDepth_def
      searchTableDepth_def Let_def max_def min_def)

theorem bucket_index_witness:
  "LogDist (r_topic (NewRegistration 0 cfg0)) 0 \<le> 217 \<and>
   Registration_bucket (NewRegistration 0 cfg0) 0 = 0 \<and>
   LogDist (s_topic (NewSearch 0 cfg0)) 0 \<le> 217 \<and>
   Search_bucket (NewSearch 0 cfg0) 0 = 39 \<and>
   Search_bucket (NewSearch 0 cfg0) far_id = 0"
  using bucket_index [of "NewRegistration 0 cfg0" 0 "NewSearch 0 cfg0"]
    bucket_index [of "NewRegistration 0 cfg0" far_id "NewSearch 0 cfg0"] LogDist_far_id
  by (simp add: NewRegistration_def NewSearch_def searchTableDepth_def)

text \<open>
  C2 as the specification words it fails for the search table: a node at
  \<open>logdist \<ge> 40\<close> need not land in the overflow bucket. The node \<open>far_id\<close> is at
  distance 256 from topic 0 and lands in bucket 0.
\<close>

theorem search_overflow_counterexample:
  "40 \<le> LogDist (s_topic (NewSearch 0 cfg0)) far_id \<and>
   Search_bucket (NewSearch 0 cfg0) far_id \<noteq> int searchTableDepth - 1"
  using LogDist_far_id
  by (simp add: Search_bucket_def NewSearch_def searchTableDepth_def)

section \<open>Search: the candidate sets\<close>

lemma newer_Some: "newer a (Some n) \<noteq> None"
  by (cases a) auto

lemma add_disjoint:
  "dom (sb_new b) \<inter> sb_asked b = {} \<Longrightarrow> dom (sb_new (add b n)) \<inter> sb_asked (add b n) = {}"
  by (auto simp: add_def Let_def split: if_splits)

lemma setAsked_disjoint:
  "dom (sb_new b) \<inter> sb_asked b = {} \<Longrightarrow>
   dom (sb_new (setAsked b n)) \<inter> sb_asked (setAsked b n) = {}"
  by (auto simp: setAsked_def split: if_splits)

lemma Search_AddNodes_loop_inv:
  "search_inv s \<Longrightarrow> search_inv (fst (Search_AddNodes_loop s a nodes))"
proof (induction nodes arbitrary: s a)
  case Nil
  then show ?case by simp
next
  case (Cons n nodes)
  show ?case
  proof (cases "Node_ID n = Self (s_cfg s)")
    case True
    then show ?thesis using Cons by simp
  next
    case False
    let ?i = "nat (Search_bucket s (Node_ID n))"
    let ?s' = "if count (s_buckets s ?i) < SearchBucketSize (s_cfg s)
               then s\<lparr> s_buckets := (s_buckets s)(?i := add (s_buckets s ?i) n) \<rparr> else s"
    have "search_inv ?s'"
      using Cons.prems add_disjoint [of "s_buckets s ?i" n]
      by (simp add: search_inv_def)
    then show ?thesis
      using False Cons.IH [of ?s'] by (simp add: Let_def)
  qed
qed

lemma Search_AddNodes_inv: "search_inv s \<Longrightarrow> search_inv (Search_AddNodes s src nodes)"
proof -
  assume inv: "search_inv s"
  obtain s' a where l: "Search_AddNodes_loop s False nodes = (s', a)"
    by fastforce
  with Search_AddNodes_loop_inv [OF inv, of False nodes] have "search_inv s'"
    by simp
  then show ?thesis
    using l by (simp add: Search_AddNodes_def search_inv_def)
qed

lemma AddQueryResults_loop_inv:
  "search_inv s \<Longrightarrow> search_inv (AddQueryResults_loop s i results)"
proof (induction results arbitrary: s)
  case Nil
  then show ?case by simp
next
  case (Cons n results)
  show ?case
  proof (cases "Node_ID n = Self (s_cfg s)")
    case True
    then show ?thesis using Cons by simp
  next
    case False
    let ?b = "s_buckets s i"
    let ?s' = "s\<lparr> s_buckets := (s_buckets s)(i := ?b\<lparr> sb_numResults := sb_numResults ?b + 1 \<rparr>),
                   s_numResults := s_numResults s + 1,
                   resultBuffer := resultBuffer s @ [n] \<rparr>"
    have "search_inv ?s'"
      using Cons.prems by (simp add: search_inv_def)
    then show ?thesis
      using False Cons.IH [of ?s'] by (simp add: Let_def)
  qed
qed

lemma AddQueryResults_inv: "search_inv s \<Longrightarrow> search_inv (AddQueryResults s from results)"
proof -
  assume inv: "search_inv s"
  let ?i = "nat (Search_bucket s (Node_ID from))"
  let ?s' = "s\<lparr> s_buckets := (s_buckets s)(?i := setAsked (s_buckets s ?i) from) \<rparr>"
  have "search_inv ?s'"
    using inv setAsked_disjoint [of "s_buckets s ?i" "from"]
    by (simp add: search_inv_def)
  then show ?thesis
    using AddQueryResults_loop_inv [of ?s' ?i results] by (simp add: AddQueryResults_def Let_def)
qed

lemma PopResult_buckets: "PopResult s = Inr s' \<Longrightarrow> s_buckets s' = s_buckets s"
  by (auto simp: PopResult_def split: if_splits)

lemma PopResult_inv: "search_inv s \<Longrightarrow> PopResult s = Inr s' \<Longrightarrow> search_inv s'"
  by (simp add: search_inv_def PopResult_buckets)

lemma NewSearch_inv: "search_inv (NewSearch topic config)"
  by (simp add: search_inv_def NewSearch_def)

lemma search_reachable_inv: "search_reachable s \<Longrightarrow> search_inv s"
  by (induction rule: search_reachable.induct)
    (auto intro: NewSearch_inv Search_AddNodes_inv AddQueryResults_inv PopResult_inv)

text \<open>
  C9. In every state that the public operations can reach from \<open>NewSearch\<close>, the
  \<open>new\<close> map and the \<open>asked\<close> set of every bucket are disjoint. (\<open>QueryTarget\<close>
  and \<open>PeekResult\<close> do not change the state.)
\<close>

theorem new_asked_disjoint:
  "search_reachable s \<Longrightarrow> dom (sb_new (s_buckets s i)) \<inter> sb_asked (s_buckets s i) = {}"
  using search_reachable_inv [of s] by (simp add: search_inv_def)

theorem new_asked_disjoint_witness:
  "search_reachable (AddQueryResults (Search_AddNodes (NewSearch 0 cfg0) None [node2]) node2 []) \<and>
   dom (sb_new (s_buckets
     (AddQueryResults (Search_AddNodes (NewSearch 0 cfg0) None [node2]) node2 []) 39)) \<inter>
   sb_asked (s_buckets
     (AddQueryResults (Search_AddNodes (NewSearch 0 cfg0) None [node2]) node2 []) 39) = {}"
proof -
  have r: "search_reachable
      (AddQueryResults (Search_AddNodes (NewSearch 0 cfg0) None [node2]) node2 [])"
    by (intro search_reachable.intros)
  show ?thesis
    using r new_asked_disjoint [OF r, of 39] by simp
qed

subsection \<open>The asked set only grows\<close>

lemma AddQueryResults_loop_asked:
  "sb_asked (s_buckets (AddQueryResults_loop s i results) j) = sb_asked (s_buckets s j)"
  by (induction results arbitrary: s) (auto simp: Let_def)

lemma AddQueryResults_loop_new:
  "sb_new (s_buckets (AddQueryResults_loop s i results) j) = sb_new (s_buckets s j)"
  by (induction results arbitrary: s) (auto simp: Let_def)

lemma AddQueryResults_loop_cfg:
  "s_cfg (AddQueryResults_loop s i results) = s_cfg s"
  by (induction results arbitrary: s) (auto simp: Let_def)

lemma AddQueryResults_loop_topic:
  "s_topic (AddQueryResults_loop s i results) = s_topic s"
  by (induction results arbitrary: s) (auto simp: Let_def)

lemma AddQueryResults_asked:
  "sb_asked (s_buckets (AddQueryResults s from results) j) =
     (if j = nat (Search_bucket s (Node_ID from))
      then insert (Node_ID from) (sb_asked (s_buckets s j)) else sb_asked (s_buckets s j))"
  by (simp add: AddQueryResults_def Let_def AddQueryResults_loop_asked setAsked_def)

lemma add_asked: "sb_asked (add b n) = sb_asked b"
  by (simp add: add_def Let_def)

lemma Search_AddNodes_loop_asked:
  "sb_asked (s_buckets (fst (Search_AddNodes_loop s a nodes)) j) = sb_asked (s_buckets s j)"
  by (induction nodes arbitrary: s a) (auto simp: Let_def add_asked)

lemma Search_AddNodes_asked:
  "sb_asked (s_buckets (Search_AddNodes s src nodes) j) = sb_asked (s_buckets s j)"
proof -
  obtain s' a where l: "Search_AddNodes_loop s False nodes = (s', a)"
    by fastforce
  with Search_AddNodes_loop_asked [of s False nodes j]
  have "sb_asked (s_buckets s' j) = sb_asked (s_buckets s j)"
    by simp
  then show ?thesis
    using l by (simp add: Search_AddNodes_def)
qed

lemma PopResult_asked:
  "PopResult s = Inr s' \<Longrightarrow> sb_asked (s_buckets s' j) = sb_asked (s_buckets s j)"
  by (simp add: PopResult_buckets)

lemma LogDist_1: "LogDist 0 1 = 1"
proof -
  have "bit ((0::ID) XOR 1) 0" by simp
  moreover have "\<forall>j. 0 < j \<and> j < 256 \<longrightarrow> \<not> bit ((0::ID) XOR 1) j"
    by (auto simp: bit_simps)
  ultimately show ?thesis using LogDist_top_bit [of 0 0 1] by simp
qed

lemma LogDist_2: "LogDist 0 (push_bit 1 1) = 2"
proof -
  have "bit ((0::ID) XOR push_bit 1 1) 1" by (simp add: bit_simps)
  moreover have "\<forall>j. 1 < j \<and> j < 256 \<longrightarrow> \<not> bit ((0::ID) XOR push_bit 1 1) j"
    by (auto simp: bit_simps)
  ultimately show ?thesis using LogDist_top_bit [of 1 0 "push_bit 1 1"] by simp
qed

lemma scenario1:
  "sb_new (s_buckets (Search_AddNodes (NewSearch 0 cfg0) None [node2]) 39) (Node_ID node2) = Some node2"
  using LogDist_2
  by (simp add: Search_AddNodes_def NewSearch_def cfg0_def node2_def Search_bucket_def
      searchTableDepth_def count_def add_def contains_def Let_def)

lemma scenario2:
  "sb_new (s_buckets (Search_AddNodes (AddQueryResults (NewSearch 0 cfg0) node1 []) None [node2]) 39)
     (Node_ID node2) = None"
  using LogDist_2 LogDist_1
  by (simp add: Search_AddNodes_def AddQueryResults_def NewSearch_def cfg0_def node2_def node1_def
      Search_bucket_def setAsked_def
      searchTableDepth_def count_def add_def contains_def Let_def)


text \<open>
  C10. \<open>AddQueryResults\<close> puts the identifier of \<open>from\<close> into the \<open>asked\<close> set of
  its bucket, whether or not it was in a \<open>new\<close> set before. No operation removes an
  identifier from \<open>asked\<close>, and \<open>count\<close> is \<open>|new| + |asked|\<close>, so the entry
  occupies a slot for good. With \<open>SearchBucketSize = 1\<close>: \<open>node1\<close> was never a
  candidate, and after \<open>AddQueryResults\<close> from \<open>node1\<close> the candidate \<open>node2\<close> of the
  same bucket is not inserted by \<open>AddNodes\<close>, while without that call it is.
\<close>

theorem asked_consumes_slot:
  "Node_ID from \<in> sb_asked (s_buckets (AddQueryResults s from results)
       (nat (Search_bucket s (Node_ID from)))) \<and>
   count b = int (card (dom (sb_new b))) + int (card (sb_asked b)) \<and>
   sb_asked (s_buckets s j) \<subseteq> sb_asked (s_buckets (AddQueryResults s from results) j) \<and>
   sb_asked (s_buckets (Search_AddNodes s src nodes) j) = sb_asked (s_buckets s j) \<and>
   (PopResult s = Inr s' \<longrightarrow> sb_asked (s_buckets s' j) = sb_asked (s_buckets s j)) \<and>
   (\<forall>i. Node_ID node1 \<notin> dom (sb_new (s_buckets (NewSearch 0 cfg0) i))) \<and>
   sb_new (s_buckets (Search_AddNodes (NewSearch 0 cfg0) None [node2]) 39) (Node_ID node2)
     = Some node2 \<and>
   sb_new (s_buckets (Search_AddNodes (AddQueryResults (NewSearch 0 cfg0) node1 []) None [node2]) 39)
     (Node_ID node2) = None"
proof -
  have "\<forall>i. Node_ID node1 \<notin> dom (sb_new (s_buckets (NewSearch 0 cfg0) i))"
    by (simp add: NewSearch_def)
  moreover have "sb_asked (s_buckets s j) \<subseteq> sb_asked (s_buckets (AddQueryResults s from results) j)"
    by (auto simp: AddQueryResults_asked)
  moreover have "Node_ID from \<in> sb_asked (s_buckets (AddQueryResults s from results)
       (nat (Search_bucket s (Node_ID from))))"
    by (simp add: AddQueryResults_asked)
  ultimately show ?thesis
    using scenario1 scenario2 Search_AddNodes_asked [of s src nodes j] PopResult_asked [of s s' j]
    by (simp add: count_def)
qed

theorem asked_consumes_slot_witness:
  "PopResult (AddQueryResults (NewSearch 0 cfg0) node1 [node2]) =
     Inr ((AddQueryResults (NewSearch 0 cfg0) node1 [node2])\<lparr> resultBuffer := [] \<rparr>) \<and>
   sb_asked (s_buckets
     ((AddQueryResults (NewSearch 0 cfg0) node1 [node2])\<lparr> resultBuffer := [] \<rparr>) 39) =
   sb_asked (s_buckets (AddQueryResults (NewSearch 0 cfg0) node1 [node2]) 39) \<and>
   Node_ID node1 \<in> sb_asked (s_buckets (AddQueryResults (NewSearch 0 cfg0) node1 [node2]) 39)"
proof -
  let ?s = "AddQueryResults (NewSearch 0 cfg0) node1 [node2]"
  have p: "PopResult ?s = Inr (?s\<lparr> resultBuffer := [] \<rparr>)"
    by (simp add: PopResult_def AddQueryResults_def NewSearch_def cfg0_def node2_def Let_def)
  have b: "nat (Search_bucket (NewSearch 0 cfg0) (Node_ID node1)) = 39"
    using LogDist_1 by (simp add: Search_bucket_def NewSearch_def searchTableDepth_def node1_def)
  have "sb_asked (s_buckets (?s\<lparr> resultBuffer := [] \<rparr>) 39) = sb_asked (s_buckets ?s 39)"
    using p asked_consumes_slot [of node1 ?s "[]" "s_buckets ?s 39" 39 None "[]"
        "?s\<lparr> resultBuffer := [] \<rparr>"]
    by simp
  moreover have "Node_ID node1 \<in> sb_asked (s_buckets ?s 39)"
    using b asked_consumes_slot [of node1 "NewSearch 0 cfg0" "[node2]" "s_buckets ?s 39" 39 None "[]"
        "?s\<lparr> resultBuffer := [] \<rparr>"]
    by simp
  ultimately show ?thesis
    using p by simp
qed

section \<open>The attempt heap\<close>

lemma core_fields:
  "core a = core b \<Longrightarrow>
   State a = State b \<and> NextTime a = NextTime b \<and> Node a = Node b \<and> Ticket a = Ticket b \<and>
   TotalWaitTime a = TotalWaitTime b \<and> bucket a = bucket b"
  by (cases a, cases b) (simp add: core_def)

lemma core_index [simp]: "core (a\<lparr> index := k \<rparr>) = core a"
  by (simp add: core_def)

lemma heap_frame_refl [simp]: "heap_frame T r r"
  by (simp add: heap_frame_def)

lemma heap_frame_trans:
  "heap_frame T r r1 \<Longrightarrow> heap_frame T' r1 r2 \<Longrightarrow> T' \<subseteq> T \<Longrightarrow> heap_frame T r r2"
  by (auto simp: heap_frame_def)

lemma heap_frame_mono: "heap_frame T r r' \<Longrightarrow> T \<subseteq> T' \<Longrightarrow> heap_frame T' r r'"
  by (auto simp: heap_frame_def)

lemma heap_inv_distinct: "heap_inv r \<Longrightarrow> distinct (r_heap r)"
  unfolding heap_inv_def distinct_conv_nth
  by (metis of_nat_eq_iff)

lemma set_index_frame: "heap_frame {p} r (set_index r p k)"
  by (simp add: heap_frame_def set_index_def)

lemma set_index_simps [simp]:
  "r_heap (set_index r p k) = r_heap r"
  "r_buckets (set_index r p k) = r_buckets r"
  "r_cfg (set_index r p k) = r_cfg r"
  "r_topic (set_index r p k) = r_topic r"
  "r_nalloc (set_index r p k) = r_nalloc r"
  "r_atts (set_index r p k) = (r_atts r)(p := (r_atts r p)\<lparr> index := k \<rparr>)"
  by (simp_all add: set_index_def)

lemma Swap_eq:
  "Swap r i j =
     set_index (set_index (r\<lparr> r_heap := (r_heap r)[i := r_heap r ! j, j := r_heap r ! i] \<rparr>)
       ((r_heap r)[i := r_heap r ! j, j := r_heap r ! i] ! i) (int i))
       ((r_heap r)[i := r_heap r ! j, j := r_heap r ! i] ! j) (int j)"
  by (simp add: Swap_def Let_def)

lemma Swap_heap:
  "r_heap (Swap r i j) = (r_heap r)[i := r_heap r ! j, j := r_heap r ! i]"
  by (simp add: Swap_eq)

lemma Swap_length [simp]: "length (r_heap (Swap r i j)) = length (r_heap r)"
  by (simp add: Swap_heap)

lemma Swap_set:
  "i < length (r_heap r) \<Longrightarrow> j < length (r_heap r) \<Longrightarrow>
   set (r_heap (Swap r i j)) = set (r_heap r)"
  by (simp add: Swap_heap set_swap)

lemma two_updates_frame:
  "a \<in> T \<Longrightarrow> b \<in> T \<Longrightarrow>
   heap_frame T r (set_index (set_index (r\<lparr> r_heap := h \<rparr>) a k) b l)"
  by (simp add: heap_frame_def)

lemma Swap_frame:
  assumes "i < length (r_heap r)" "j < length (r_heap r)"
  shows "heap_frame (set (r_heap r)) r (Swap r i j)"
proof -
  let ?h = "(r_heap r)[i := r_heap r ! j, j := r_heap r ! i]"
  have s: "set ?h = set (r_heap r)" using assms by (simp add: set_swap)
  have "?h ! i \<in> set ?h" "?h ! j \<in> set ?h"
    using assms by (metis length_list_update nth_mem)+
  then show ?thesis
    unfolding Swap_eq s by (rule two_updates_frame)
qed

lemma Swap_heap_inv:
  assumes "heap_inv r" "i < length (r_heap r)" "j < length (r_heap r)"
  shows "heap_inv (Swap r i j)"
proof -
  let ?h = "r_heap r"
  have d: "distinct ?h" using assms(1) by (rule heap_inv_distinct)
  have inj: "\<And>k l. k < length ?h \<Longrightarrow> l < length ?h \<Longrightarrow> ?h ! k = ?h ! l \<Longrightarrow> k = l"
    using d by (simp add: nth_eq_iff_index_eq)
  have B: "\<And>k. k < length ?h \<Longrightarrow> ?h ! k < r_nalloc r \<and> index (r_atts r (?h ! k)) = int k"
    using assms(1) by (simp add: heap_inv_def)
  have C: "\<And>p. p < r_nalloc r \<Longrightarrow> 0 \<le> index (r_atts r p) \<Longrightarrow>
      nat (index (r_atts r p)) < length ?h \<and> ?h ! nat (index (r_atts r p)) = p"
    using assms(1) by (simp add: heap_inv_def)
  have hi: "?h[i := ?h ! j, j := ?h ! i] ! i = ?h ! j"
    using assms by (simp add: nth_list_update)
  have hj: "?h[i := ?h ! j, j := ?h ! i] ! j = ?h ! i"
    using assms by (simp add: nth_list_update)
  have ha: "r_atts (Swap r i j) =
      ((r_atts r)(?h ! j := (r_atts r (?h ! j))\<lparr> index := int i \<rparr>))
        (?h ! i := (((r_atts r)(?h ! j := (r_atts r (?h ! j))\<lparr> index := int i \<rparr>)) (?h ! i))\<lparr> index := int j \<rparr>)"
    unfolding Swap_eq hi hj by simp
  show ?thesis
    unfolding heap_inv_def
  proof (rule conjI; intro allI impI)
    fix k assume k: "k < length (r_heap (Swap r i j))"
    then have k': "k < length ?h" by simp
    have n: "r_nalloc (Swap r i j) = r_nalloc r" by (simp add: Swap_eq)
    show "r_heap (Swap r i j) ! k < r_nalloc (Swap r i j) \<and>
          index (r_atts (Swap r i j) (r_heap (Swap r i j) ! k)) = int k"
    proof (cases "k = j")
      case True
      then show ?thesis using assms(2,3) B [of i] hj by (simp add: ha n Swap_heap)
    next
      case False
      note nj = this
      show ?thesis
      proof (cases "k = i")
        case True
        have "i = j \<or> ?h ! j \<noteq> ?h ! i" using inj [of i j] assms(2,3) by auto
        then show ?thesis using True assms(2,3) B [of j] hi nj by (auto simp: ha n Swap_heap)
      next
        case False
        have e: "r_heap (Swap r i j) ! k = ?h ! k"
          using False nj k' by (simp add: Swap_heap nth_list_update)
        have "?h ! k \<noteq> ?h ! i" "?h ! k \<noteq> ?h ! j"
          using inj [of k i] inj [of k j] False nj k' assms(2,3) by auto
        then show ?thesis using B [of k] k' by (simp add: e ha n)
      qed
    qed
  next
    fix p assume p: "p < r_nalloc (Swap r i j)" "0 \<le> index (r_atts (Swap r i j) p)"
    then have p': "p < r_nalloc r" by (simp add: Swap_eq)
    show "nat (index (r_atts (Swap r i j) p)) < length (r_heap (Swap r i j)) \<and>
          r_heap (Swap r i j) ! nat (index (r_atts (Swap r i j) p)) = p"
    proof (cases "p = ?h ! i")
      case True
      then show ?thesis using assms(2,3) hj by (simp add: ha Swap_heap)
    next
      case False
      note ni = this
      show ?thesis
      proof (cases "p = ?h ! j")
        case True
        then show ?thesis using assms(2,3) hi ni by (simp add: ha Swap_heap)
      next
        case False
        with ni p have idx: "index (r_atts (Swap r i j) p) = index (r_atts r p)"
          by (simp add: ha)
        with p have "0 \<le> index (r_atts r p)" by simp
        from C [OF p' this] have c: "nat (index (r_atts r p)) < length ?h"
          "?h ! nat (index (r_atts r p)) = p" by simp_all
        have "nat (index (r_atts r p)) \<noteq> i" "nat (index (r_atts r p)) \<noteq> j"
          using c ni False by auto
        then show ?thesis using c idx by (simp add: Swap_heap nth_list_update)
      qed
    qed
  qed
qed

lemma heap_step_refl: "heap_inv r \<Longrightarrow> heap_step r r"
  by (simp add: heap_step_def)

lemma heap_step_trans: "heap_step r r1 \<Longrightarrow> heap_step r1 r2 \<Longrightarrow> heap_step r r2"
  unfolding heap_step_def
  by (metis heap_frame_trans order_refl)

lemma Swap_step:
  "heap_inv r \<Longrightarrow> i < length (r_heap r) \<Longrightarrow> j < length (r_heap r) \<Longrightarrow>
   heap_step r (Swap r i j)"
  by (simp add: heap_step_def Swap_heap_inv Swap_frame Swap_set)

lemma up_stop:
  "(j - 1) div 2 = j \<or> \<not> Less r j ((j - 1) div 2) \<Longrightarrow> up r j = r"
  by (subst up.simps) (simp add: Let_def)

lemma up_rec:
  "\<not> ((j - 1) div 2 = j \<or> \<not> Less r j ((j - 1) div 2)) \<Longrightarrow>
   up r j = up (Swap r ((j - 1) div 2) j) ((j - 1) div 2)"
  by (subst up.simps) (simp add: Let_def)

lemma down_loop_stop:
  "n \<le> 2 * i + 1 \<or> \<not> Less r (down_child r i n) i \<Longrightarrow> down_loop r i n = (r, i)"
  by (subst down_loop.simps) (auto simp: Let_def down_child_def)

lemma down_loop_rec:
  "\<not> (n \<le> 2 * i + 1 \<or> \<not> Less r (down_child r i n) i) \<Longrightarrow>
   down_loop r i n = down_loop (Swap r i (down_child r i n)) (down_child r i n) n"
  by (subst down_loop.simps) (auto simp: Let_def down_child_def)

lemma down_child_bounds:
  "\<not> n \<le> 2 * i + 1 \<Longrightarrow> i < down_child r i n \<and> down_child r i n < n"
  by (auto simp: down_child_def)

lemma up_step: "heap_inv r \<Longrightarrow> j < length (r_heap r) \<Longrightarrow> heap_step r (up r j)"
proof (induction r j rule: up.induct)
  case (1 r j)
  let ?i = "(j - 1) div 2"
  show ?case
  proof (cases "?i = j \<or> \<not> Less r j ?i")
    case True
    then show ?thesis using "1.prems" by (simp add: up_stop heap_step_refl)
  next
    case False
    have i: "?i < length (r_heap r)" using "1.prems" by simp
    have s: "heap_step r (Swap r ?i j)"
      using "1.prems" i by (simp add: Swap_step)
    then have "heap_step (Swap r ?i j) (up (Swap r ?i j) ?i)"
      using "1.IH" [OF refl False] i by (simp add: heap_step_def)
    with s have "heap_step r (up (Swap r ?i j) ?i)"
      by (rule heap_step_trans)
    then show ?thesis by (subst up_rec [OF False])
  qed
qed

lemma up_above:
  "j < length (r_heap r) \<Longrightarrow> j < k \<Longrightarrow> r_heap (up r j) ! k = r_heap r ! k"
proof (induction r j rule: up.induct)
  case (1 r j)
  let ?i = "(j - 1) div 2"
  show ?case
  proof (cases "?i = j \<or> \<not> Less r j ?i")
    case True
    then show ?thesis by (simp add: up_stop)
  next
    case False
    have i: "?i < length (r_heap r)" "?i < k" "?i \<noteq> k" "j \<noteq> k" using "1.prems" by auto
    have "r_heap (up (Swap r ?i j) ?i) ! k = r_heap (Swap r ?i j) ! k"
      using "1.IH" [OF refl False] i by simp
    also have "\<dots> = r_heap r ! k"
      using i by (simp add: Swap_heap)
    finally show ?thesis by (subst up_rec [OF False])
  qed
qed

lemma down_loop_induct_rule:
  assumes "\<And>r i n. (\<not> (n \<le> 2 * i + 1 \<or> \<not> Less r (down_child r i n) i) \<Longrightarrow>
              P (Swap r i (down_child r i n)) (down_child r i n) n) \<Longrightarrow> P r i n"
  shows "P r i n"
proof (induction r i n rule: down_loop.induct)
  case (1 r i n)
  show ?case
  proof (rule assms)
    assume a: "\<not> (n \<le> 2 * i + 1 \<or> \<not> Less r (down_child r i n) i)"
    then have j1: "\<not> n \<le> 2 * i + 1" by simp
    from a have l: "\<not> \<not> Less r (if 2 * i + 1 + 1 < n \<and> Less r (2 * i + 1 + 1) (2 * i + 1)
            then 2 * i + 1 + 1 else 2 * i + 1) i"
      by (simp add: down_child_def)
    show "P (Swap r i (down_child r i n)) (down_child r i n) n"
      using "1.IH" [OF refl j1 refl l] by (simp add: down_child_def)
  qed
qed

lemma down_loop_step:
  "heap_inv r \<Longrightarrow> n \<le> length (r_heap r) \<Longrightarrow> heap_step r (fst (down_loop r i n))"
proof (induction r i n rule: down_loop_induct_rule)
  case (1 r i n)
  let ?j = "down_child r i n"
  show ?case
  proof (cases "n \<le> 2 * i + 1 \<or> \<not> Less r ?j i")
    case True
    then show ?thesis using "1.prems" by (simp add: down_loop_stop heap_step_refl)
  next
    case False
    then have j1: "\<not> n \<le> 2 * i + 1" by simp
    have b: "i < length (r_heap r)" "?j < length (r_heap r)"
      using "1.prems" down_child_bounds [OF j1, of r] by auto
    have s: "heap_step r (Swap r i ?j)"
      using "1.prems" b by (simp add: Swap_step)
    then have "heap_step (Swap r i ?j) (fst (down_loop (Swap r i ?j) ?j n))"
      using "1.IH" [OF False] "1.prems" by (simp add: heap_step_def)
    with s have "heap_step r (fst (down_loop (Swap r i ?j) ?j n))"
      by (rule heap_step_trans)
    then show ?thesis by (subst down_loop_rec [OF False])
  qed
qed

lemma down_loop_above:
  "n \<le> length (r_heap r) \<Longrightarrow> n \<le> k \<Longrightarrow> r_heap (fst (down_loop r i n)) ! k = r_heap r ! k"
proof (induction r i n rule: down_loop_induct_rule)
  case (1 r i n)
  let ?j = "down_child r i n"
  show ?case
  proof (cases "n \<le> 2 * i + 1 \<or> \<not> Less r ?j i")
    case True
    then show ?thesis by (simp add: down_loop_stop)
  next
    case False
    then have j1: "\<not> n \<le> 2 * i + 1" by simp
    have b: "i \<noteq> k" "?j \<noteq> k"
      using "1.prems" down_child_bounds [OF j1, of r] by auto
    have "r_heap (fst (down_loop (Swap r i ?j) ?j n)) ! k = r_heap (Swap r i ?j) ! k"
      using "1.IH" [OF False] "1.prems" by simp
    also have "\<dots> = r_heap r ! k"
      using b by (simp add: Swap_heap)
    finally show ?thesis by (subst down_loop_rec [OF False])
  qed
qed

lemma down_fst: "fst (down r i n) = fst (down_loop r i n)"
  by (simp add: down_def split: prod.splits)

lemma heap_Remove_eq:
  "heap_Remove r i =
     (if i < 0 \<or> int (length (r_heap r)) \<le> i then Inl IndexOutOfRange
      else Inr (fst (regHeap_Pop (remove_sift r (nat i)))))"
  by (simp add: heap_Remove_def remove_sift_def Let_def)

lemma remove_sift_props:
  assumes inv: "heap_inv r" and i: "i < length (r_heap r)"
  shows "heap_step r (remove_sift r i) \<and>
         r_heap (remove_sift r i) ! (length (r_heap r) - 1) = r_heap r ! i"
proof (cases "length (r_heap r) - 1 = i")
  case True
  then show ?thesis using inv by (simp add: remove_sift_def heap_step_refl)
next
  case False
  let ?n = "length (r_heap r) - 1"
  let ?r1 = "Swap r i ?n"
  let ?r2 = "fst (down_loop ?r1 i ?n)"
  have n: "?n < length (r_heap r)" "i < ?n" using i False by auto
  have s1: "heap_step r ?r1" using inv i n by (simp add: Swap_step)
  then have inv1: "heap_inv ?r1" by (simp add: heap_step_def)
  have s2: "heap_step ?r1 ?r2" using inv1 n by (simp add: down_loop_step)
  then have inv2: "heap_inv ?r2" and len2: "length (r_heap ?r2) = length (r_heap r)"
    by (simp_all add: heap_step_def)
  have s12: "heap_step r ?r2" using s1 s2 by (rule heap_step_trans)
  have p1: "r_heap ?r1 ! ?n = r_heap r ! i"
    using n i by (simp add: Swap_heap)
  have p2: "r_heap ?r2 ! ?n = r_heap r ! i"
    using down_loop_above [of ?n ?r1 ?n i] n p1 by simp
  have s3: "heap_step r (up ?r2 i)"
    using s12 up_step [OF inv2, of i] i len2 by (auto intro: heap_step_trans)
  have p3: "r_heap (up ?r2 i) ! ?n = r_heap r ! i"
    using up_above [of i ?r2 ?n] n i len2 p2 by simp
  obtain r2 moved where d: "down ?r1 i ?n = (r2, moved)" by fastforce
  then have r2: "r2 = ?r2" using down_fst [of ?r1 i ?n] by simp
  have "remove_sift r i = (if \<not> moved then up ?r2 i else ?r2)"
    using False d r2 by (simp add: remove_sift_def Let_def)
  then show ?thesis using s12 s3 p2 p3 by simp
qed

lemma set_butlast_distinct:
  "distinct xs \<Longrightarrow> xs \<noteq> [] \<Longrightarrow> set (butlast xs) = set xs - {last xs}"
  by (cases xs rule: rev_cases) auto

lemma regHeap_Pop_props:
  assumes inv: "heap_inv r" and ne: "r_heap r \<noteq> []"
  shows "heap_inv (fst (regHeap_Pop r)) \<and>
         heap_frame {last (r_heap r)} r (fst (regHeap_Pop r)) \<and>
         r_heap (fst (regHeap_Pop r)) = butlast (r_heap r) \<and>
         index (r_atts (fst (regHeap_Pop r)) (last (r_heap r))) = - 1"
proof -
  let ?h = "r_heap r"
  let ?item = "last ?h"
  let ?r' = "fst (regHeap_Pop r)"
  have l: "?h ! (length ?h - 1) = ?item" using ne by (simp add: last_conv_nth)
  have eq: "?r' = (set_index r ?item (- 1))\<lparr> r_heap := butlast ?h \<rparr>"
    using l by (simp add: regHeap_Pop_def Let_def butlast_conv_take)
  have d: "distinct ?h" using inv by (rule heap_inv_distinct)
  have B: "\<And>k. k < length ?h \<Longrightarrow> ?h ! k < r_nalloc r \<and> index (r_atts r (?h ! k)) = int k"
    using inv by (simp add: heap_inv_def)
  have C: "\<And>p. p < r_nalloc r \<Longrightarrow> 0 \<le> index (r_atts r p) \<Longrightarrow>
      nat (index (r_atts r p)) < length ?h \<and> ?h ! nat (index (r_atts r p)) = p"
    using inv by (simp add: heap_inv_def)
  have hi: "heap_inv ?r'"
    unfolding heap_inv_def
  proof (rule conjI; intro allI impI)
    fix k assume "k < length (r_heap ?r')"
    then have k: "k < length ?h - 1" by (simp add: eq)
    then have "?h ! k \<noteq> ?item"
      using l nth_eq_iff_index_eq [OF d, of k "length ?h - 1"] by auto
    then show "r_heap ?r' ! k < r_nalloc ?r' \<and> index (r_atts ?r' (r_heap ?r' ! k)) = int k"
      using k B [of k] by (simp add: eq nth_butlast)
  next
    fix p assume p: "p < r_nalloc ?r'" "0 \<le> index (r_atts ?r' p)"
    then have np: "p \<noteq> ?item" by (auto simp: eq)
    with p have p': "p < r_nalloc r" "0 \<le> index (r_atts r p)" by (simp_all add: eq)
    from C [OF p'] have c: "nat (index (r_atts r p)) < length ?h"
      "?h ! nat (index (r_atts r p)) = p" by simp_all
    have "nat (index (r_atts r p)) \<noteq> length ?h - 1" using c np l by auto
    then have "nat (index (r_atts r p)) < length ?h - 1" using c by simp
    then show "nat (index (r_atts ?r' p)) < length (r_heap ?r') \<and>
               r_heap ?r' ! nat (index (r_atts ?r' p)) = p"
      using c np by (simp add: eq nth_butlast)
  qed
  have fr: "heap_frame {?item} r ?r'"
    by (simp add: eq heap_frame_def)
  show ?thesis using hi fr by (simp add: eq)
qed

lemma heap_Remove_props:
  assumes inv: "heap_inv r" and ok: "heap_Remove r i = Inr r'"
  shows "0 \<le> i \<and> nat i < length (r_heap r) \<and> heap_inv r' \<and>
         heap_frame (set (r_heap r)) r r' \<and>
         set (r_heap r') = set (r_heap r) - {r_heap r ! nat i} \<and>
         index (r_atts r' (r_heap r ! nat i)) = - 1"
proof -
  let ?i = "nat i"
  from ok have rng: "0 \<le> i" "?i < length (r_heap r)"
    by (auto simp: heap_Remove_eq split: if_splits)
  let ?r1 = "remove_sift r ?i"
  from ok rng have r': "r' = fst (regHeap_Pop ?r1)"
    by (auto simp: heap_Remove_eq split: if_splits)
  have s: "heap_step r ?r1" and pos: "r_heap ?r1 ! (length (r_heap r) - 1) = r_heap r ! ?i"
    using remove_sift_props [OF inv rng(2)] by simp_all
  then have inv1: "heap_inv ?r1" and len: "length (r_heap ?r1) = length (r_heap r)"
    and st: "set (r_heap ?r1) = set (r_heap r)" and fr1: "heap_frame (set (r_heap r)) r ?r1"
    by (simp_all add: heap_step_def)
  have ne: "r_heap ?r1 \<noteq> []" using len rng by auto
  have lst: "last (r_heap ?r1) = r_heap r ! ?i"
    using pos ne len by (simp add: last_conv_nth)
  note pp = regHeap_Pop_props [OF inv1 ne, folded r', unfolded lst]
  have d1: "distinct (r_heap ?r1)" using inv1 by (rule heap_inv_distinct)
  have "set (butlast (r_heap ?r1)) = set (r_heap ?r1) - {last (r_heap ?r1)}"
    using d1 ne by (rule set_butlast_distinct)
  then have sr: "set (r_heap r') = set (r_heap r) - {r_heap r ! ?i}"
    using pp st lst by simp
  have "r_heap r ! ?i \<in> set (r_heap r)" using rng by simp
  then have fr2: "heap_frame (set (r_heap r)) ?r1 r'"
    using pp by (auto intro: heap_frame_mono)
  have fr: "heap_frame (set (r_heap r)) r r'"
    using fr1 fr2 by (rule heap_frame_trans) simp
  show ?thesis using rng pp sr fr by simp
qed

lemma heap_Remove_ok:
  "0 \<le> i \<Longrightarrow> nat i < length (r_heap r) \<Longrightarrow> \<exists>r'. heap_Remove r i = Inr r'"
  by (auto simp: heap_Remove_eq)

lemma heap_Push_props:
  assumes inv: "heap_inv r" and x: "x < r_nalloc r" "index (r_atts r x) < 0"
  shows "heap_inv (heap_Push r x) \<and>
         heap_frame (insert x (set (r_heap r))) r (heap_Push r x) \<and>
         set (r_heap (heap_Push r x)) = insert x (set (r_heap r))"
proof -
  let ?h = "r_heap r"
  let ?r1 = "regHeap_Push r x"
  have eq: "?r1 = (set_index r x (int (length ?h)))\<lparr> r_heap := ?h @ [x] \<rparr>"
    by (simp add: regHeap_Push_def Let_def)
  have B: "\<And>k. k < length ?h \<Longrightarrow> ?h ! k < r_nalloc r \<and> index (r_atts r (?h ! k)) = int k"
    using inv by (simp add: heap_inv_def)
  have C: "\<And>p. p < r_nalloc r \<Longrightarrow> 0 \<le> index (r_atts r p) \<Longrightarrow>
      nat (index (r_atts r p)) < length ?h \<and> ?h ! nat (index (r_atts r p)) = p"
    using inv by (simp add: heap_inv_def)
  have nx: "\<And>k. k < length ?h \<Longrightarrow> ?h ! k \<noteq> x"
    using B x by fastforce
  have inv1: "heap_inv ?r1"
    unfolding heap_inv_def
  proof (rule conjI; intro allI impI)
    fix k assume "k < length (r_heap ?r1)"
    then have k: "k < length ?h \<or> k = length ?h" by (auto simp: eq)
    then show "r_heap ?r1 ! k < r_nalloc ?r1 \<and> index (r_atts ?r1 (r_heap ?r1 ! k)) = int k"
      using B [of k] nx [of k] x by (auto simp: eq nth_append)
  next
    fix p assume p: "p < r_nalloc ?r1" "0 \<le> index (r_atts ?r1 p)"
    show "nat (index (r_atts ?r1 p)) < length (r_heap ?r1) \<and>
               r_heap ?r1 ! nat (index (r_atts ?r1 p)) = p"
    proof (cases "p = x")
      case True
      then show ?thesis by (simp add: eq)
    next
      case False
      with p have p': "p < r_nalloc r" "0 \<le> index (r_atts r p)" by (simp_all add: eq)
      from C [OF p'] show ?thesis using False by (simp add: eq nth_append)
    qed
  qed
  have fr1: "heap_frame (insert x (set ?h)) r ?r1"
    by (simp add: eq heap_frame_def)
  have st1: "set (r_heap ?r1) = insert x (set ?h)" by (simp add: eq)
  have len1: "length (r_heap ?r1) - 1 < length (r_heap ?r1)" by (simp add: eq)
  have s: "heap_step ?r1 (up ?r1 (length (r_heap ?r1) - 1))"
    using inv1 len1 by (rule up_step)
  have e: "heap_Push r x = up ?r1 (length (r_heap ?r1) - 1)"
    by (simp add: heap_Push_def Let_def)
  have "heap_frame (insert x (set ?h)) r (heap_Push r x)"
    using fr1 s unfolding e heap_step_def st1 by (auto intro: heap_frame_trans)
  then show ?thesis using s st1 unfolding e heap_step_def by simp
qed

section \<open>The invariant of a registration\<close>

lemma standby_ids_eq: "standby_ids r b = state_ids r b Standby"
  by (auto simp: standby_ids_def state_ids_def split: option.splits)

lemma state_ids_frame:
  "rb_att (r_buckets r' i) = rb_att (r_buckets r i) \<Longrightarrow>
   (\<And>p. State (r_atts r' p) = State (r_atts r p)) \<Longrightarrow>
   state_ids r' i s = state_ids r i s"
  by (simp add: state_ids_def)

lemma heap_frame_fields:
  assumes "heap_frame T r r'"
  shows "r_buckets r' = r_buckets r" "r_cfg r' = r_cfg r" "r_topic r' = r_topic r"
    "r_nalloc r' = r_nalloc r"
    "State (r_atts r' p) = State (r_atts r p)" "bucket (r_atts r' p) = bucket (r_atts r p)"
    "Node (r_atts r' p) = Node (r_atts r p)" "NextTime (r_atts r' p) = NextTime (r_atts r p)"
    "Ticket (r_atts r' p) = Ticket (r_atts r p)"
    "TotalWaitTime (r_atts r' p) = TotalWaitTime (r_atts r p)"
    "p \<notin> T \<Longrightarrow> r_atts r' p = r_atts r p"
proof -
  have c: "core (r_atts r' p) = core (r_atts r p)" using assms by (simp add: heap_frame_def)
  show "r_buckets r' = r_buckets r" "r_cfg r' = r_cfg r" "r_topic r' = r_topic r"
    "r_nalloc r' = r_nalloc r" "p \<notin> T \<Longrightarrow> r_atts r' p = r_atts r p"
    using assms by (simp_all add: heap_frame_def)
  show "State (r_atts r' p) = State (r_atts r p)" "bucket (r_atts r' p) = bucket (r_atts r p)"
    "Node (r_atts r' p) = Node (r_atts r p)" "NextTime (r_atts r' p) = NextTime (r_atts r p)"
    "Ticket (r_atts r' p) = Ticket (r_atts r p)"
    "TotalWaitTime (r_atts r' p) = TotalWaitTime (r_atts r p)"
    using core_fields [OF c] by simp_all
qed

lemma heap_frame_state_ids:
  "heap_frame T r r' \<Longrightarrow> state_ids r' i s = state_ids r i s"
  by (simp add: state_ids_def heap_frame_fields)

lemma Registration_bucket_frame:
  "r_topic r' = r_topic r \<Longrightarrow> Registration_bucket r' nid = Registration_bucket r nid"
  by (simp add: Registration_bucket_def)

text \<open>A heap operation that touches no Standby attempt keeps the invariant.\<close>

lemma heap_frame_reg_inv:
  assumes fr: "heap_frame T r r'" and ns: "\<And>p. p \<in> T \<Longrightarrow> State (r_atts r p) \<noteq> Standby"
    and hi: "heap_inv r'" and inv: "reg_inv r"
  shows "reg_inv r'"
proof -
  note f = heap_frame_fields [OF fr]
  have "links_ok r'"
    using inv by (simp add: reg_inv_def links_ok_def f)
  moreover have "standby_ok r'"
    unfolding standby_ok_def
  proof (intro allI impI)
    fix p assume p: "p < r_nalloc r'" "State (r_atts r' p) = Standby"
    then have "p \<notin> T" using ns [of p] by (auto simp: f)
    then show "index (r_atts r' p) = - 1"
      using p inv by (simp add: f reg_inv_def standby_ok_def)
  qed
  moreover have "standby_counts_ok r'"
  proof -
    have sc: "standby_counts_ok r" using inv by (simp add: reg_inv_def)
    show ?thesis
      unfolding standby_counts_ok_def f(1) heap_frame_state_ids [OF fr]
      using sc unfolding standby_counts_ok_def .
  qed
  moreover have "layout_ok r'"
    using inv by (simp add: reg_inv_def layout_ok_def f Registration_bucket_frame [OF f(3)])
  ultimately show ?thesis using hi by (simp add: reg_inv_def)
qed

lemma heap_members_not_standby:
  "reg_inv r \<Longrightarrow> p \<in> set (r_heap r) \<Longrightarrow> State (r_atts r p) \<noteq> Standby"
  by (fastforce simp: reg_inv_def heap_inv_def standby_ok_def in_set_conv_nth)

lemma heap_Remove_reg_inv:
  assumes "reg_inv r" "heap_Remove r i = Inr r'"
  shows "reg_inv r'"
proof -
  have hi: "heap_inv r" using assms(1) by (simp add: reg_inv_def)
  note p = heap_Remove_props [OF hi assms(2)]
  show ?thesis
    using p heap_members_not_standby [OF assms(1)] assms(1)
    by (auto intro: heap_frame_reg_inv)
qed

lemma heap_Push_reg_inv:
  assumes "reg_inv r" "x < r_nalloc r" "index (r_atts r x) < 0" "State (r_atts r x) \<noteq> Standby"
  shows "reg_inv (heap_Push r x)"
proof -
  have hi: "heap_inv r" using assms(1) by (simp add: reg_inv_def)
  note p = heap_Push_props [OF hi assms(2,3)]
  have "\<And>p. p \<in> insert x (set (r_heap r)) \<Longrightarrow> State (r_atts r p) \<noteq> Standby"
    using heap_members_not_standby [OF assms(1)] assms(4) by auto
  then show ?thesis
    using p assms(1) by (auto intro: heap_frame_reg_inv)
qed

lemma range_first_in: "S \<noteq> {} \<Longrightarrow> range_first ch S \<in> S"
  by (simp add: range_first_def)

lemma setAttemptState_simps [simp]:
  "r_heap (setAttemptState r p st) = r_heap r"
  "r_cfg (setAttemptState r p st) = r_cfg r"
  "r_topic (setAttemptState r p st) = r_topic r"
  "r_nalloc (setAttemptState r p st) = r_nalloc r"
  "rb_att (r_buckets (setAttemptState r p st) i) = rb_att (r_buckets r i)"
  "rb_dist (r_buckets (setAttemptState r p st) i) = rb_dist (r_buckets r i)"
  "r_atts (setAttemptState r p st) = (r_atts r)(p := (r_atts r p)\<lparr> State := st \<rparr>)"
  by (simp_all add: setAttemptState_def Let_def)

lemma setAttemptState_count:
  "rb_count (r_buckets (setAttemptState r p st) i) s =
     (if i = bucket (r_atts r p)
      then (if s = st
            then (if State (r_atts r p) = st then rb_count (r_buckets r i) s
                  else rb_count (r_buckets r i) s + 1)
            else if s = State (r_atts r p) then rb_count (r_buckets r i) s - 1
            else rb_count (r_buckets r i) s)
      else rb_count (r_buckets r i) s)"
  by (simp add: setAttemptState_def Let_def)

text \<open>Changing the state of the attempt linked at \<open>(b, nid)\<close> moves \<open>nid\<close> between the sets.\<close>

lemma setAttemptState_state_ids:
  assumes "links_ok r" "rb_att (r_buckets r b) nid = Some p"
  shows "state_ids (setAttemptState r p st) i s =
     (if i = b then (if s = st then insert nid (state_ids r b s) else state_ids r b s - {nid})
      else state_ids r i s)"
proof -
  have "bucket (r_atts r p) = b \<and> Node_ID (Node (r_atts r p)) = nid"
    using assms by (simp add: links_ok_def)
  moreover have "\<And>j m. rb_att (r_buckets r j) m = Some p \<Longrightarrow>
      bucket (r_atts r p) = j \<and> Node_ID (Node (r_atts r p)) = m"
    using assms(1) by (simp add: links_ok_def)
  ultimately have l: "\<And>j m. rb_att (r_buckets r j) m = Some p \<Longrightarrow> j = b \<and> m = nid"
    by auto
  show ?thesis
  proof (rule set_eqI)
    fix m
    show "m \<in> state_ids (setAttemptState r p st) i s \<longleftrightarrow>
          m \<in> (if i = b
                then (if s = st then insert nid (state_ids r b s) else state_ids r b s - {nid})
                else state_ids r i s)"
    proof (cases "rb_att (r_buckets r i) m")
      case None
      then show ?thesis using assms(2) by (auto simp: state_ids_def)
    next
      case (Some q)
      show ?thesis
      proof (cases "q = p")
        case True
        with Some l [of i m] have "i = b" "m = nid" by simp_all
        then show ?thesis using Some True by (simp add: state_ids_def)
      next
        case False
        then have "\<not> (i = b \<and> m = nid)" using Some assms(2) by auto
        then show ?thesis using Some False by (auto simp: state_ids_def)
      qed
    qed
  qed
qed

lemma setAttemptState_unlinked_standby_ids:
  assumes "State (r_atts r p) \<noteq> Standby" "st \<noteq> Standby"
  shows "state_ids (setAttemptState r p st) i Standby = state_ids r i Standby"
  using assms by (auto simp: state_ids_def)

lemma heap_inv_cong:
  "r_heap r' = r_heap r \<Longrightarrow> r_nalloc r' = r_nalloc r \<Longrightarrow>
   (\<And>p. index (r_atts r' p) = index (r_atts r p)) \<Longrightarrow> heap_inv r' = heap_inv r"
  by (simp add: heap_inv_def)

lemma atts_update_reg_inv:
  assumes inv: "reg_inv r"
    and a: "State a' = State (r_atts r p)" "index a' = index (r_atts r p)"
      "bucket a' = bucket (r_atts r p)" "Node_ID (Node a') = Node_ID (Node (r_atts r p))"
  shows "reg_inv (r\<lparr> r_atts := (r_atts r)(p := a') \<rparr>)"
proof -
  let ?r' = "r\<lparr> r_atts := (r_atts r)(p := a') \<rparr>"
  have "links_ok ?r'"
    using inv a by (simp add: reg_inv_def links_ok_def)
  moreover have "heap_inv ?r' = heap_inv r"
    using a by (intro heap_inv_cong) simp_all
  then have "heap_inv ?r'"
    using inv by (simp add: reg_inv_def)
  moreover have "standby_ok ?r'"
    using inv a by (simp add: reg_inv_def standby_ok_def)
  moreover have "standby_counts_ok ?r'"
  proof -
    have sc: "standby_counts_ok r" using inv by (simp add: reg_inv_def)
    have "\<And>i. state_ids ?r' i Standby = state_ids r i Standby"
      using a by (intro state_ids_frame) simp_all
    then show ?thesis using sc by (simp add: standby_counts_ok_def)
  qed
  moreover have "layout_ok ?r'"
    using inv by (simp add: reg_inv_def layout_ok_def Registration_bucket_def)
  ultimately show ?thesis by (simp add: reg_inv_def)
qed

lemma setAttemptState_reg_inv:
  assumes inv: "reg_inv r" and ns: "State (r_atts r p) \<noteq> Standby" "st \<noteq> Standby"
  shows "reg_inv (setAttemptState r p st)"
proof -
  let ?r' = "setAttemptState r p st"
  have "links_ok ?r'"
    using inv by (simp add: reg_inv_def links_ok_def)
  moreover have "heap_inv ?r' = heap_inv r"
    by (intro heap_inv_cong) simp_all
  then have "heap_inv ?r'"
    using inv by (simp add: reg_inv_def)
  moreover have "standby_ok ?r'"
    using inv ns by (simp add: reg_inv_def standby_ok_def)
  moreover have "standby_counts_ok ?r'"
  proof -
    have sc: "standby_counts_ok r" using inv by (simp add: reg_inv_def)
    have "\<And>i. rb_count (r_buckets ?r' i) Standby = rb_count (r_buckets r i) Standby"
      using ns by (auto simp: setAttemptState_count)
    then show ?thesis
      using sc setAttemptState_unlinked_standby_ids [OF ns]
      by (simp add: standby_counts_ok_def)
  qed
  moreover have "layout_ok ?r'"
    using inv by (simp add: reg_inv_def layout_ok_def Registration_bucket_def)
  ultimately show ?thesis by (simp add: reg_inv_def)
qed

text \<open>The promotion of a Standby attempt of bucket \<open>b\<close> in \<open>refillAttempts\<close>.\<close>

lemma promote_reg_inv:
  assumes inv: "reg_inv r" and l: "rb_att (r_buckets r b) nid = Some p"
    and st: "State (r_atts r p) = Standby"
  shows "reg_inv (setAttemptState r p Waiting)"
proof -
  let ?r' = "setAttemptState r p Waiting"
  have lk: "links_ok r" using inv by (simp add: reg_inv_def)
  have pb: "bucket (r_atts r p) = b" "p < r_nalloc r" using lk l by (auto simp: links_ok_def)
  have "links_ok ?r'"
    using inv by (simp add: reg_inv_def links_ok_def)
  moreover have "heap_inv ?r' = heap_inv r"
    by (intro heap_inv_cong) simp_all
  then have "heap_inv ?r'"
    using inv by (simp add: reg_inv_def)
  moreover have "standby_ok ?r'"
    using inv by (simp add: reg_inv_def standby_ok_def)
  moreover have "standby_counts_ok ?r'"
    unfolding standby_counts_ok_def
  proof
    fix i
    have sc: "rb_count (r_buckets r i) Standby = int (card (state_ids r i Standby))"
      "int (card (state_ids r i Standby)) \<le> regBucketMaxReplacements"
      using inv by (simp_all add: reg_inv_def standby_counts_ok_def)
    show "rb_count (r_buckets ?r' i) Standby = int (card (state_ids ?r' i Standby)) \<and>
          int (card (state_ids ?r' i Standby)) \<le> regBucketMaxReplacements"
    proof (cases "i = b")
      case False
      then show ?thesis
        using sc pb by (simp add: setAttemptState_count setAttemptState_state_ids [OF lk l])
    next
      case True
      have m: "nid \<in> state_ids r b Standby" using l st by (simp add: state_ids_def)
      have "card (state_ids r b Standby - {nid}) = card (state_ids r b Standby) - 1"
        using m by simp
      moreover have "0 < card (state_ids r b Standby)"
        using m by (simp add: card_gt_0_iff) blast
      ultimately show ?thesis
        using True sc pb st
        by (simp add: setAttemptState_count setAttemptState_state_ids [OF lk l])
    qed
  qed
  moreover have "layout_ok ?r'"
    using inv by (simp add: reg_inv_def layout_ok_def Registration_bucket_def)
  ultimately show ?thesis by (simp add: reg_inv_def)
qed

lemma refillAttempts_eq:
  "refillAttempts ch r b =
     (if rb_count (r_buckets r b) Waiting \<ge> RegBucketSize (r_cfg r) then r
      else if standby_ids r b = {} then r
      else case rb_att (r_buckets r b) (range_first ch (standby_ids r b)) of
             None \<Rightarrow> r
           | Some att \<Rightarrow> promote r att)"
  unfolding refillAttempts_def promote_def ..

text \<open>
  \<open>refillAttempts\<close> either leaves the state as it is (enough Waiting attempts, or no
  Standby attempt in the bucket), or promotes one Standby attempt of the bucket.
\<close>

lemma refillAttempts_cases:
  "(refillAttempts ch r b = r \<and>
      (RegBucketSize (r_cfg r) \<le> rb_count (r_buckets r b) Waiting \<or> state_ids r b Standby = {})) \<or>
   (\<exists>nid p. rb_att (r_buckets r b) nid = Some p \<and> State (r_atts r p) = Standby \<and>
      rb_count (r_buckets r b) Waiting < RegBucketSize (r_cfg r) \<and>
      refillAttempts ch r b = promote r p)"
proof (cases "RegBucketSize (r_cfg r) \<le> rb_count (r_buckets r b) Waiting \<or>
    standby_ids r b = {}")
  case True
  then show ?thesis by (auto simp: refillAttempts_eq standby_ids_eq)
next
  case False
  let ?nid = "range_first ch (standby_ids r b)"
  have "?nid \<in> standby_ids r b" using False by (simp add: range_first_in)
  then obtain p where l: "rb_att (r_buckets r b) ?nid = Some p"
    and st: "State (r_atts r p) = Standby"
    by (auto simp: standby_ids_eq state_ids_def)
  have "refillAttempts ch r b = promote r p"
    using False l by (simp add: refillAttempts_eq)
  then show ?thesis using l st False by auto
qed

lemma promote_reg_inv2:
  assumes inv: "reg_inv r" and l: "rb_att (r_buckets r b) nid = Some p"
    and st: "State (r_atts r p) = Standby"
  shows "reg_inv (promote r p)"
proof -
  have pn: "p < r_nalloc r" using inv l by (auto simp: reg_inv_def links_ok_def)
  have ix: "index (r_atts r p) = - 1" using inv pn st by (simp add: reg_inv_def standby_ok_def)
  define r1 where "r1 = setAttemptState r p Waiting"
  define r2 where "r2 = r1\<lparr> r_atts := (r_atts r1)(p := (r_atts r1 p)\<lparr> NextTime := Clock (r_cfg r1) \<rparr>) \<rparr>"
  have i1: "reg_inv r1" unfolding r1_def using inv l st by (rule promote_reg_inv)
  have i2: "reg_inv r2" unfolding r2_def using i1 by (rule atts_update_reg_inv) simp_all
  have f: "r_nalloc r2 = r_nalloc r" "index (r_atts r2 p) = index (r_atts r p)"
    "State (r_atts r2 p) = Waiting"
    by (simp_all add: r2_def r1_def)
  have "reg_inv (heap_Push r2 p)"
    using i2 pn ix f by (intro heap_Push_reg_inv) simp_all
  then show ?thesis
    unfolding promote_def Let_def r2_def r1_def .
qed

lemma refillAttempts_reg_inv:
  assumes "reg_inv r"
  shows "reg_inv (refillAttempts ch r b)"
proof -
  from refillAttempts_cases [of ch r b] show ?thesis
  proof (elim disjE exE)
    assume "refillAttempts ch r b = r \<and>
      (RegBucketSize (r_cfg r) \<le> rb_count (r_buckets r b) Waiting \<or> state_ids r b Standby = {})"
    then show ?thesis using assms by simp
  next
    fix nid p
    assume "rb_att (r_buckets r b) nid = Some p \<and> State (r_atts r p) = Standby \<and>
      rb_count (r_buckets r b) Waiting < RegBucketSize (r_cfg r) \<and>
      refillAttempts ch r b = promote r p"
    then show ?thesis using promote_reg_inv2 [OF assms, of b nid p] by simp
  qed
qed

section \<open>The operations keep the invariant\<close>

lemma removeAttempt_eq:
  "removeAttempt r att =
     (if \<not> live r att then Inl DeleteNonExistent
      else case (if index (r_atts r att) \<ge> 0 then heap_Remove r (index (r_atts r att))
                 else Inr r) of
             Inl e \<Rightarrow> Inl e
           | Inr r1 \<Rightarrow> Inr (unlink r1 att (Node_ID (Node (r_atts r att)))))"
  unfolding removeAttempt_def unlink_def live_def Let_def by simp

lemma unlink_simps [simp]:
  "r_heap (unlink r a nid) = r_heap r"
  "r_cfg (unlink r a nid) = r_cfg r"
  "r_topic (unlink r a nid) = r_topic r"
  "r_nalloc (unlink r a nid) = r_nalloc r"
  "r_atts (unlink r a nid) = r_atts r"
  "rb_dist (r_buckets (unlink r a nid) i) = rb_dist (r_buckets r i)"
  "rb_att (r_buckets (unlink r a nid) i) =
     (if i = bucket (r_atts r a) then (rb_att (r_buckets r i))(nid := None)
      else rb_att (r_buckets r i))"
  "rb_count (r_buckets (unlink r a nid) i) s =
     (if i = bucket (r_atts r a) \<and> s = State (r_atts r a) then rb_count (r_buckets r i) s - 1
      else rb_count (r_buckets r i) s)"
  by (simp_all add: unlink_def Let_def)

lemma unlink_state_ids:
  "state_ids (unlink r a nid) i s =
     (if i = bucket (r_atts r a) then state_ids r i s - {nid} else state_ids r i s)"
  by (auto simp: state_ids_def)

lemma card_state_ids_remove:
  assumes "rb_att (r_buckets r b) nid = Some a"
  shows "int (card (state_ids r b s - {nid})) =
     (if s = State (r_atts r a) then int (card (state_ids r b s)) - 1
      else int (card (state_ids r b s)))"
proof (cases "s = State (r_atts r a)")
  case True
  then have m: "nid \<in> state_ids r b s" using assms by (simp add: state_ids_def)
  then have "0 < card (state_ids r b s)" by (simp add: card_gt_0_iff) blast
  then show ?thesis using True m by simp
next
  case False
  then have "nid \<notin> state_ids r b s" using assms by (simp add: state_ids_def)
  then show ?thesis using False by simp
qed

lemma unlink_reg_inv:
  assumes inv: "reg_inv r" and l: "rb_att (r_buckets r (bucket (r_atts r a))) nid = Some a"
  shows "reg_inv (unlink r a nid)"
proof -
  let ?r' = "unlink r a nid"
  let ?b = "bucket (r_atts r a)"
  have "links_ok ?r'"
    using inv by (simp add: reg_inv_def links_ok_def)
  moreover have "heap_inv ?r' = heap_inv r"
    by (intro heap_inv_cong) simp_all
  then have "heap_inv ?r'"
    using inv by (simp add: reg_inv_def)
  moreover have "standby_ok ?r'"
    using inv by (simp add: reg_inv_def standby_ok_def)
  moreover have "standby_counts_ok ?r'"
    unfolding standby_counts_ok_def
  proof
    fix i
    have sc: "rb_count (r_buckets r i) Standby = int (card (state_ids r i Standby))"
      "int (card (state_ids r i Standby)) \<le> regBucketMaxReplacements"
      using inv by (simp_all add: reg_inv_def standby_counts_ok_def)
    show "rb_count (r_buckets ?r' i) Standby = int (card (state_ids ?r' i Standby)) \<and>
          int (card (state_ids ?r' i Standby)) \<le> regBucketMaxReplacements"
    proof (cases "i = ?b")
      case False
      then show ?thesis using sc by (simp add: unlink_state_ids)
    next
      case True
      then show ?thesis
        using sc card_state_ids_remove [OF l, of Standby]
        by (auto simp: unlink_state_ids)
    qed
  qed
  moreover have "layout_ok ?r'"
    using inv by (auto simp: reg_inv_def layout_ok_def Registration_bucket_def)
  ultimately show ?thesis by (simp add: reg_inv_def)
qed

lemma unlink_counts_ok:
  assumes c: "counts_ok r" and l: "rb_att (r_buckets r (bucket (r_atts r a))) nid = Some a"
  shows "counts_ok (unlink r a nid)"
  unfolding counts_ok_def
proof (intro allI)
  fix i s
  have sc: "rb_count (r_buckets r i) s = int (card (state_ids r i s))"
    using c by (simp add: counts_ok_def)
  show "rb_count (r_buckets (unlink r a nid) i) s = int (card (state_ids (unlink r a nid) i s))"
    using sc card_state_ids_remove [OF l, of s]
    by (auto simp: unlink_state_ids)
qed

lemma heap_frame_live: "heap_frame T r r' \<Longrightarrow> live r' a = live r a"
  by (simp add: live_def heap_frame_fields)

lemma heap_frame_counts_ok: "heap_frame T r r' \<Longrightarrow> counts_ok r' = counts_ok r"
  by (simp add: counts_ok_def heap_frame_fields(1) heap_frame_state_ids)

text \<open>What \<open>removeAttempt\<close> does to a linked attempt.\<close>

lemma removeAttempt_props:
  assumes inv: "reg_inv r" and ok: "removeAttempt r a = Inr r'"
  shows "live r a \<and> reg_inv r' \<and> set (r_heap r') = set (r_heap r) - {a} \<and>
         (\<exists>r1. heap_frame (set (r_heap r)) r r1 \<and>
               r' = unlink r1 a (Node_ID (Node (r_atts r a))))"
proof -
  let ?nid = "Node_ID (Node (r_atts r a))"
  have lv: "live r a" using ok by (auto simp: removeAttempt_eq split: if_splits)
  have hi: "heap_inv r" using inv by (simp add: reg_inv_def)
  have an: "a < r_nalloc r" using inv lv by (auto simp: reg_inv_def links_ok_def live_def)
  show ?thesis
  proof (cases "0 \<le> index (r_atts r a)")
    case True
    with ok lv obtain r1 where r1: "heap_Remove r (index (r_atts r a)) = Inr r1"
      and r': "r' = unlink r1 a ?nid"
      by (auto simp: removeAttempt_eq split: sum.splits)
    note p = heap_Remove_props [OF hi r1]
    have el: "r_heap r ! nat (index (r_atts r a)) = a"
      using hi an True by (simp add: heap_inv_def)
    have fr: "heap_frame (set (r_heap r)) r r1" using p by simp
    have i1: "reg_inv r1" using inv r1 by (rule heap_Remove_reg_inv)
    have l1: "rb_att (r_buckets r1 (bucket (r_atts r1 a))) ?nid = Some a"
      using lv by (simp add: live_def heap_frame_fields [OF fr])
    have "reg_inv r'" unfolding r' using i1 l1 by (rule unlink_reg_inv)
    moreover have "set (r_heap r') = set (r_heap r) - {a}"
      using p el by (simp add: r')
    ultimately show ?thesis using lv fr r' by auto
  next
    case False
    with ok lv have r': "r' = unlink r a ?nid"
      by (auto simp: removeAttempt_eq)
    have "a \<notin> set (r_heap r)"
      using hi False by (fastforce simp: heap_inv_def in_set_conv_nth)
    moreover have "rb_att (r_buckets r (bucket (r_atts r a))) ?nid = Some a"
      using lv by (simp add: live_def)
    then have "reg_inv r'"
      unfolding r' by (rule unlink_reg_inv [OF inv])
    ultimately show ?thesis using lv r' by (auto intro: exI [of _ r])
  qed
qed

lemma removeAttempt_ok:
  assumes inv: "reg_inv r" and lv: "live r a"
  shows "\<exists>r'. removeAttempt r a = Inr r'"
proof (cases "0 \<le> index (r_atts r a)")
  case True
  have an: "a < r_nalloc r" using inv lv by (auto simp: reg_inv_def links_ok_def live_def)
  have "nat (index (r_atts r a)) < length (r_heap r)"
    using inv an True by (simp add: reg_inv_def heap_inv_def)
  with True obtain r1 where "heap_Remove r (index (r_atts r a)) = Inr r1"
    using heap_Remove_ok by blast
  then show ?thesis using lv True by (simp add: removeAttempt_eq)
next
  case False
  then show ?thesis using lv by (simp add: removeAttempt_eq)
qed

lemma AddNode_eq:
  "AddNode ch r n =
     (if Node_ID n = Self (r_cfg r) then r
      else case rb_att (r_buckets r (nat (Registration_bucket r (Node_ID n)))) (Node_ID n) of
             Some attempt \<Rightarrow>
               if Node_Seq (Node (r_atts r attempt)) < Node_Seq n
               then r\<lparr> r_atts := (r_atts r)(attempt := (r_atts r attempt)\<lparr> Node := n \<rparr>) \<rparr>
               else r
           | None \<Rightarrow>
               if rb_count (r_buckets r (nat (Registration_bucket r (Node_ID n)))) Standby
                    \<ge> regBucketMaxReplacements then r
               else refillAttempts ch (link_new r n (nat (Registration_bucket r (Node_ID n))))
                      (nat (Registration_bucket r (Node_ID n))))"
  unfolding AddNode_def link_new_def Let_def by (simp split: option.splits)

lemma link_new_simps [simp]:
  "r_heap (link_new r n b) = r_heap r"
  "r_cfg (link_new r n b) = r_cfg r"
  "r_topic (link_new r n b) = r_topic r"
  "r_nalloc (link_new r n b) = Suc (r_nalloc r)"
  "r_atts (link_new r n b) =
     (r_atts r)(r_nalloc r := \<lparr> State = Standby, NextTime = 0, Node = n, Ticket = [],
                TotalWaitTime = 0, index = - 1, bucket = b \<rparr>)"
  "rb_dist (r_buckets (link_new r n b) i) = rb_dist (r_buckets r i)"
  "rb_att (r_buckets (link_new r n b) i) =
     (if i = b then (rb_att (r_buckets r i))(Node_ID n \<mapsto> r_nalloc r)
      else rb_att (r_buckets r i))"
  "rb_count (r_buckets (link_new r n b) i) s =
     (if i = b \<and> s = Standby then rb_count (r_buckets r i) s + 1
      else rb_count (r_buckets r i) s)"
  by (simp_all add: link_new_def Let_def)

lemma link_new_state_ids:
  assumes lk: "links_ok r" and fresh: "rb_att (r_buckets r b) (Node_ID n) = None"
  shows "state_ids (link_new r n b) i s =
     (if i = b \<and> s = Standby then insert (Node_ID n) (state_ids r i s) else state_ids r i s)"
proof -
  have old: "\<And>j m q. rb_att (r_buckets r j) m = Some q \<Longrightarrow> q \<noteq> r_nalloc r"
    using lk by (fastforce simp: links_ok_def)
  show ?thesis
  proof (rule set_eqI)
    fix m
    show "m \<in> state_ids (link_new r n b) i s \<longleftrightarrow>
          m \<in> (if i = b \<and> s = Standby then insert (Node_ID n) (state_ids r i s)
                else state_ids r i s)"
    proof (cases "i = b \<and> m = Node_ID n")
      case True
      then show ?thesis using fresh by (auto simp: state_ids_def)
    next
      case False
      then have e: "rb_att (r_buckets (link_new r n b) i) m = rb_att (r_buckets r i) m"
        by auto
      show ?thesis
      proof (cases "rb_att (r_buckets r i) m")
        case None
        then show ?thesis using e False by (auto simp: state_ids_def)
      next
        case (Some q)
        then have "q \<noteq> r_nalloc r" by (rule old)
        then show ?thesis using e Some False by (auto simp: state_ids_def)
      qed
    qed
  qed
qed

lemma link_new_reg_inv:
  assumes inv: "reg_inv r" and fresh: "rb_att (r_buckets r b) (Node_ID n) = None"
    and room: "rb_count (r_buckets r b) Standby < regBucketMaxReplacements"
    and ns: "Node_ID n \<noteq> Self (r_cfg r)" and b: "b = nat (Registration_bucket r (Node_ID n))"
  shows "reg_inv (link_new r n b)"
proof -
  let ?r' = "link_new r n b"
  have lk: "links_ok r" using inv by (simp add: reg_inv_def)
  have old: "\<And>j m q. rb_att (r_buckets r j) m = Some q \<Longrightarrow> q < r_nalloc r"
    using lk by (fastforce simp: links_ok_def)
  have "links_ok ?r'"
    unfolding links_ok_def
  proof (intro allI impI)
    fix i m q assume a: "rb_att (r_buckets ?r' i) m = Some q"
    show "q < r_nalloc ?r' \<and> bucket (r_atts ?r' q) = i \<and> Node_ID (Node (r_atts ?r' q)) = m"
    proof (cases "i = b \<and> m = Node_ID n")
      case True
      then show ?thesis using a by simp
    next
      case False
      then have q: "rb_att (r_buckets r i) m = Some q" using a by (auto split: if_splits)
      from lk q have "q < r_nalloc r \<and> bucket (r_atts r q) = i \<and>
          Node_ID (Node (r_atts r q)) = m"
        unfolding links_ok_def by blast
      then show ?thesis by auto
    qed
  qed
  moreover have "heap_inv ?r'"
  proof -
    have hi: "heap_inv r" using inv by (simp add: reg_inv_def)
    then have B: "\<And>k. k < length (r_heap r) \<Longrightarrow> r_heap r ! k < r_nalloc r \<and>
        index (r_atts r (r_heap r ! k)) = int k"
      and C: "\<And>p. p < r_nalloc r \<Longrightarrow> 0 \<le> index (r_atts r p) \<Longrightarrow>
        nat (index (r_atts r p)) < length (r_heap r) \<and> r_heap r ! nat (index (r_atts r p)) = p"
      by (simp_all add: heap_inv_def)
    show ?thesis
      unfolding heap_inv_def
    proof (rule conjI; intro allI impI)
      fix k assume "k < length (r_heap ?r')"
      then have k: "k < length (r_heap r)" by simp
      from B [OF k] show "r_heap ?r' ! k < r_nalloc ?r' \<and>
          index (r_atts ?r' (r_heap ?r' ! k)) = int k"
        by auto
    next
      fix p assume p: "p < r_nalloc ?r'" "0 \<le> index (r_atts ?r' p)"
      then have "p \<noteq> r_nalloc r" by auto
      with p have "p < r_nalloc r" "0 \<le> index (r_atts r p)" by simp_all
      from C [OF this] show "nat (index (r_atts ?r' p)) < length (r_heap ?r') \<and>
          r_heap ?r' ! nat (index (r_atts ?r' p)) = p"
        using \<open>p \<noteq> r_nalloc r\<close> by simp
    qed
  qed
  moreover have "standby_ok ?r'"
    using inv by (auto simp: reg_inv_def standby_ok_def less_Suc_eq)
  moreover have "standby_counts_ok ?r'"
    unfolding standby_counts_ok_def
  proof
    fix i
    have sc: "rb_count (r_buckets r i) Standby = int (card (state_ids r i Standby))"
      "int (card (state_ids r i Standby)) \<le> regBucketMaxReplacements"
      using inv by (simp_all add: reg_inv_def standby_counts_ok_def)
    have nm: "Node_ID n \<notin> state_ids r b Standby" using fresh by (simp add: state_ids_def)
    show "rb_count (r_buckets ?r' i) Standby = int (card (state_ids ?r' i Standby)) \<and>
          int (card (state_ids ?r' i Standby)) \<le> regBucketMaxReplacements"
      using sc nm room by (auto simp: link_new_state_ids [OF lk fresh])
  qed
  moreover have "layout_ok ?r'"
    using inv ns b by (auto simp: reg_inv_def layout_ok_def Registration_bucket_def split: if_splits)
  ultimately show ?thesis by (simp add: reg_inv_def)
qed

lemma link_new_counts_ok:
  assumes c: "counts_ok r" and lk: "links_ok r"
    and fresh: "rb_att (r_buckets r b) (Node_ID n) = None"
  shows "counts_ok (link_new r n b)"
  unfolding counts_ok_def
proof (intro allI)
  fix i s
  have sc: "rb_count (r_buckets r i) s = int (card (state_ids r i s))"
    using c by (simp add: counts_ok_def)
  have nm: "Node_ID n \<notin> state_ids r b Standby" using fresh by (simp add: state_ids_def)
  show "rb_count (r_buckets (link_new r n b) i) s = int (card (state_ids (link_new r n b) i s))"
    using sc nm by (auto simp: link_new_state_ids [OF lk fresh])
qed

lemma AddNode_reg_inv:
  assumes inv: "reg_inv r"
  shows "reg_inv (AddNode ch r n)"
proof (cases "Node_ID n = Self (r_cfg r)")
  case True
  then show ?thesis using inv by (simp add: AddNode_eq)
next
  case False
  let ?b = "nat (Registration_bucket r (Node_ID n))"
  show ?thesis
  proof (cases "rb_att (r_buckets r ?b) (Node_ID n)")
    case (Some p)
    have "Node_ID (Node (r_atts r p)) = Node_ID n"
      using inv Some by (simp add: reg_inv_def links_ok_def)
    then have "reg_inv (r\<lparr> r_atts := (r_atts r)(p := (r_atts r p)\<lparr> Node := n \<rparr>) \<rparr>)"
      using inv by (intro atts_update_reg_inv) simp_all
    then show ?thesis using False Some inv by (simp add: AddNode_eq)
  next
    case None
    show ?thesis
    proof (cases "rb_count (r_buckets r ?b) Standby \<ge> regBucketMaxReplacements")
      case True
      then show ?thesis using False None inv by (simp add: AddNode_eq)
    next
      case full: False
      then have "reg_inv (link_new r n ?b)"
        using inv None False by (intro link_new_reg_inv) simp_all
      then have "reg_inv (refillAttempts ch (link_new r n ?b) ?b)"
        by (rule refillAttempts_reg_inv)
      then show ?thesis using False None full by (simp add: AddNode_eq)
    qed
  qed
qed

lemma Registration_AddNodes_reg_inv:
  "reg_inv r \<Longrightarrow> reg_inv (Registration_AddNodes ch r nodes)"
  by (induction nodes arbitrary: r) (simp_all add: AddNode_reg_inv)

lemma NewRegistration_reg_inv: "reg_inv (NewRegistration topic config)"
  by (simp add: reg_inv_def NewRegistration_def links_ok_def heap_inv_def standby_ok_def
      standby_counts_ok_def layout_ok_def state_ids_def regBucketMaxReplacements_def
      regTableDepth_def)

lemma advance_clock_reg_inv: "reg_inv r \<Longrightarrow> reg_inv (advance_clock r t)"
  by (simp add: reg_inv_def advance_clock_def links_ok_def heap_inv_def standby_ok_def
      standby_counts_ok_def layout_ok_def state_ids_def Registration_bucket_def)

lemma Update_reg_inv:
  assumes inv: "reg_inv r" and ok: "Update ch r = Inr (r', res)"
  shows "reg_inv r'"
proof (cases "r_heap r = []")
  case True
  then show ?thesis using ok inv by (simp add: Update_def)
next
  case False
  let ?a = "r_heap r ! 0"
  show ?thesis
  proof (cases "State (r_atts r ?a) = Registered \<and> word_sle (NextTime (r_atts r ?a)) (Clock (r_cfg r))")
    case True
    with ok False obtain r1 where r1: "removeAttempt r ?a = Inr r1"
      and r': "r' = refillAttempts ch r1 (bucket (r_atts r1 ?a))"
      by (auto simp: Update_def Let_def split: sum.splits)
    have "reg_inv r1" using removeAttempt_props [OF inv r1] by simp
    then show ?thesis unfolding r' by (rule refillAttempts_reg_inv)
  next
    case nr: False
    then have "r' = r"
      using ok False by (auto simp: Update_def Let_def split: RegAttemptState.splits if_splits)
    then show ?thesis using inv by simp
  qed
qed

lemma set_index_unqueued_reg_inv:
  assumes inv: "reg_inv r" and a: "a \<notin> set (r_heap r)" "State (r_atts r a) \<noteq> Standby" "k < 0"
  shows "reg_inv (set_index r a k)"
proof -
  have hi: "heap_inv r" using inv by (simp add: reg_inv_def)
  have "heap_inv (set_index r a k)"
    unfolding heap_inv_def
  proof (rule conjI; intro allI impI)
    fix j assume "j < length (r_heap (set_index r a k))"
    then have j: "j < length (r_heap r)" by simp
    then have "r_heap r ! j \<noteq> a" using a(1) by (metis nth_mem)
    then show "r_heap (set_index r a k) ! j < r_nalloc (set_index r a k) \<and>
        index (r_atts (set_index r a k) (r_heap (set_index r a k) ! j)) = int j"
      using hi j by (simp add: heap_inv_def)
  next
    fix p assume p: "p < r_nalloc (set_index r a k)" "0 \<le> index (r_atts (set_index r a k) p)"
    then have "p \<noteq> a" using a(3) by auto
    then show "nat (index (r_atts (set_index r a k) p)) < length (r_heap (set_index r a k)) \<and>
        r_heap (set_index r a k) ! nat (index (r_atts (set_index r a k) p)) = p"
      using hi p by (simp add: heap_inv_def)
  qed
  then show ?thesis
    using set_index_frame [of a r k] a(2) inv
    by (auto intro: heap_frame_reg_inv)
qed

text \<open>What \<open>StartRequest\<close> does when it succeeds.\<close>

lemma StartRequest_props:
  assumes inv: "reg_inv r" and an: "a < r_nalloc r" and ok: "StartRequest r a = Inr r'"
  shows "State (r_atts r a) = Waiting \<and> 0 \<le> index (r_atts r a) \<and> a \<in> set (r_heap r) \<and>
         reg_inv r' \<and> set (r_heap r') = set (r_heap r) - {a} \<and>
         heap_frame (set (r_heap r)) r r' \<and> index (r_atts r' a) = - 2"
proof -
  have hi: "heap_inv r" using inv by (simp add: reg_inv_def)
  from ok have w: "State (r_atts r a) = Waiting"
    by (auto simp: StartRequest_def split: if_splits)
  with ok obtain r1 where r1: "heap_Remove r (index (r_atts r a)) = Inr r1"
    and r': "r' = set_index r1 a (- 2)"
    by (auto simp: StartRequest_def split: sum.splits)
  note p = heap_Remove_props [OF hi r1]
  have el: "r_heap r ! nat (index (r_atts r a)) = a"
    using hi an p by (simp add: heap_inv_def)
  then have mem: "a \<in> set (r_heap r)" using p by (metis nth_mem)
  have fr1: "heap_frame (set (r_heap r)) r r1" using p by simp
  have i1: "reg_inv r1" using inv r1 by (rule heap_Remove_reg_inv)
  have s1: "set (r_heap r1) = set (r_heap r) - {a}" using p el by simp
  have w1: "State (r_atts r1 a) \<noteq> Standby" using w by (simp add: heap_frame_fields [OF fr1])
  have "reg_inv r'"
    unfolding r' using i1 s1 w1 by (intro set_index_unqueued_reg_inv) simp_all
  moreover have "heap_frame (set (r_heap r)) r1 r'"
    unfolding r' using set_index_frame [of a r1 "- 2"] mem by (auto intro: heap_frame_mono)
  then have "heap_frame (set (r_heap r)) r r'"
    using fr1 by (auto intro: heap_frame_trans)
  ultimately show ?thesis using w p mem s1 by (simp add: r')
qed

lemma in_flight_not_standby:
  "reg_inv r \<Longrightarrow> a < r_nalloc r \<Longrightarrow> index (r_atts r a) = - 2 \<Longrightarrow> State (r_atts r a) \<noteq> Standby"
  by (auto simp: reg_inv_def standby_ok_def)

lemma HandleTicketResponse_reg_inv:
  assumes inv: "reg_inv r" and an: "a < r_nalloc r"
    and ok: "HandleTicketResponse r a ticket waitTime = Inr r'"
  shows "reg_inv r'"
proof -
  from ok have ix: "index (r_atts r a) = - 2"
    by (auto simp: HandleTicketResponse_def validate_def split: if_splits)
  have ns: "State (r_atts r a) \<noteq> Standby" using inv an ix by (rule in_flight_not_standby)
  define r1 where "r1 = r\<lparr> r_atts := (r_atts r)(a := (r_atts r a)\<lparr> Ticket := ticket \<rparr>) \<rparr>"
  define r2 where "r2 = r1\<lparr> r_atts := (r_atts r1)
      (a := (r_atts r1 a)\<lparr> NextTime := Clock (r_cfg r1) + waitTime \<rparr>) \<rparr>"
  have r': "r' = heap_Push r2 a"
    using ok ix by (simp add: HandleTicketResponse_def validate_def Let_def r2_def r1_def)
  have i1: "reg_inv r1" unfolding r1_def using inv by (rule atts_update_reg_inv) simp_all
  have i2: "reg_inv r2" unfolding r2_def using i1 by (rule atts_update_reg_inv) simp_all
  have f: "r_nalloc r2 = r_nalloc r" "index (r_atts r2 a) = - 2" "State (r_atts r2 a) \<noteq> Standby"
    using ix ns by (simp_all add: r2_def r1_def)
  show ?thesis
    unfolding r' using i2 an f by (intro heap_Push_reg_inv) simp_all
qed

lemma HandleRegistered_eq:
  "HandleRegistered ch r att ttl =
     (if index (r_atts r att) \<noteq> - 2 then Inl BadIndex
      else Inr (refillAttempts ch (registered r att ttl) (bucket (r_atts (registered r att ttl) att))))"
  by (simp add: HandleRegistered_def validate_def registered_def Let_def)

lemma registered_reg_inv:
  assumes inv: "reg_inv r" and an: "a < r_nalloc r" and ix: "index (r_atts r a) = - 2"
  shows "reg_inv (registered r a ttl)"
proof -
  have ns: "State (r_atts r a) \<noteq> Standby" using inv an ix by (rule in_flight_not_standby)
  define r1 where "r1 = setAttemptState r a Registered"
  define r2 where "r2 = r1\<lparr> r_atts := (r_atts r1)
      (a := (r_atts r1 a)\<lparr> NextTime := Clock (r_cfg r1) + ttl \<rparr>) \<rparr>"
  have i1: "reg_inv r1" unfolding r1_def using inv ns by (rule setAttemptState_reg_inv) simp
  have i2: "reg_inv r2" unfolding r2_def using i1 by (rule atts_update_reg_inv) simp_all
  have f: "r_nalloc r2 = r_nalloc r" "index (r_atts r2 a) = - 2" "State (r_atts r2 a) \<noteq> Standby"
    using ix by (simp_all add: r2_def r1_def)
  have "reg_inv (heap_Push r2 a)"
    using i2 an f by (intro heap_Push_reg_inv) simp_all
  then show ?thesis unfolding registered_def Let_def r2_def r1_def .
qed

lemma HandleRegistered_reg_inv:
  assumes inv: "reg_inv r" and an: "a < r_nalloc r"
    and ok: "HandleRegistered ch r a ttl = Inr r'"
  shows "reg_inv r'"
proof -
  from ok have ix: "index (r_atts r a) = - 2"
    by (auto simp: HandleRegistered_eq split: if_splits)
  with ok have r': "r' = refillAttempts ch (registered r a ttl)
      (bucket (r_atts (registered r a ttl) a))"
    by (simp add: HandleRegistered_eq)
  show ?thesis
    unfolding r' using registered_reg_inv [OF inv an ix] by (rule refillAttempts_reg_inv)
qed

lemma HandleErrorResponse_eq:
  "HandleErrorResponse ch r att =
     (if index (r_atts r att) \<noteq> - 2 then Inl BadIndex
      else case removeAttempt r att of
             Inl e \<Rightarrow> Inl e
           | Inr r1 \<Rightarrow> Inr (refillAttempts ch r1 (bucket (r_atts r1 att))))"
  by (simp add: HandleErrorResponse_def validate_def)

lemma HandleErrorResponse_reg_inv:
  assumes inv: "reg_inv r" and ok: "HandleErrorResponse ch r a = Inr r'"
  shows "reg_inv r'"
proof -
  from ok obtain r1 where r1: "removeAttempt r a = Inr r1"
    and r': "r' = refillAttempts ch r1 (bucket (r_atts r1 a))"
    by (auto simp: HandleErrorResponse_eq split: if_splits sum.splits)
  have "reg_inv r1" using removeAttempt_props [OF inv r1] by simp
  then show ?thesis unfolding r' by (rule refillAttempts_reg_inv)
qed

lemma reg_reachable_inv: "reg_reachable r \<Longrightarrow> reg_inv r"
proof (induction rule: reg_reachable.induct)
  case (rr_new topic config)
  show ?case by (rule NewRegistration_reg_inv)
next
  case (rr_clock r t)
  then show ?case by (simp add: advance_clock_reg_inv)
next
  case (rr_AddNodes r ch nodes)
  then show ?case by (simp add: Registration_AddNodes_reg_inv)
next
  case (rr_Update r ch r' res)
  then show ?case using Update_reg_inv by blast
next
  case (rr_StartRequest r att r')
  then show ?case using StartRequest_props by blast
next
  case (rr_HandleTicketResponse r att ticket waitTime r')
  then show ?case using HandleTicketResponse_reg_inv by blast
next
  case (rr_HandleRegistered r att ch ttl r')
  then show ?case using HandleRegistered_reg_inv by blast
next
  case (rr_HandleErrorResponse r att ch r')
  then show ?case using HandleErrorResponse_reg_inv by blast
qed

section \<open>Effects of the operations, and the bound on Standby attempts\<close>

text \<open>What the promotion of a Standby attempt changes.\<close>

lemma promote_fields:
  assumes inv: "reg_inv r" and l: "rb_att (r_buckets r b) nid = Some p"
    and st: "State (r_atts r p) = Standby"
  shows "r_cfg (promote r p) = r_cfg r" "r_topic (promote r p) = r_topic r"
    "r_nalloc (promote r p) = r_nalloc r"
    "rb_att (r_buckets (promote r p) i) = rb_att (r_buckets r i)"
    "rb_dist (r_buckets (promote r p) i) = rb_dist (r_buckets r i)"
    "rb_count (r_buckets (promote r p) i) s =
       (if i = b \<and> s = Waiting then rb_count (r_buckets r i) s + 1
        else if i = b \<and> s = Standby then rb_count (r_buckets r i) s - 1
        else rb_count (r_buckets r i) s)"
    "State (r_atts (promote r p) q) = (if q = p then Waiting else State (r_atts r q))"
    "NextTime (r_atts (promote r p) q) =
       (if q = p then Clock (r_cfg r) else NextTime (r_atts r q))"
    "Node (r_atts (promote r p) q) = Node (r_atts r q)"
    "Ticket (r_atts (promote r p) q) = Ticket (r_atts r q)"
    "TotalWaitTime (r_atts (promote r p) q) = TotalWaitTime (r_atts r q)"
    "bucket (r_atts (promote r p) q) = bucket (r_atts r q)"
    "set (r_heap (promote r p)) = insert p (set (r_heap r))"
    "q \<notin> insert p (set (r_heap r)) \<Longrightarrow> r_atts (promote r p) q = r_atts r q"
proof -
  have pb: "bucket (r_atts r p) = b" "p < r_nalloc r"
    using inv l by (auto simp: reg_inv_def links_ok_def)
  have ix: "index (r_atts r p) = - 1" using inv pb st by (simp add: reg_inv_def standby_ok_def)
  define r1 where "r1 = setAttemptState r p Waiting"
  define r2 where "r2 = r1\<lparr> r_atts := (r_atts r1)(p := (r_atts r1 p)\<lparr> NextTime := Clock (r_cfg r1) \<rparr>) \<rparr>"
  have e: "promote r p = heap_Push r2 p"
    unfolding promote_def Let_def r2_def r1_def ..
  have i1: "reg_inv r1" unfolding r1_def using inv l st by (rule promote_reg_inv)
  have i2: "reg_inv r2" unfolding r2_def using i1 by (rule atts_update_reg_inv) simp_all
  have f: "r_nalloc r2 = r_nalloc r" "index (r_atts r2 p) = index (r_atts r p)"
    "r_heap r2 = r_heap r"
    by (simp_all add: r2_def r1_def)
  have hi2: "heap_inv r2" using i2 by (simp add: reg_inv_def)
  have pp: "heap_frame (insert p (set (r_heap r))) r2 (promote r p)"
    "set (r_heap (promote r p)) = insert p (set (r_heap r))"
    using heap_Push_props [OF hi2, of p] pb ix f by (simp_all add: e)
  note ff = heap_frame_fields [OF pp(1)]
  show "r_cfg (promote r p) = r_cfg r" "r_topic (promote r p) = r_topic r"
    "r_nalloc (promote r p) = r_nalloc r"
    "rb_att (r_buckets (promote r p) i) = rb_att (r_buckets r i)"
    "rb_dist (r_buckets (promote r p) i) = rb_dist (r_buckets r i)"
    by (simp_all add: ff r2_def r1_def)
  show "rb_count (r_buckets (promote r p) i) s =
       (if i = b \<and> s = Waiting then rb_count (r_buckets r i) s + 1
        else if i = b \<and> s = Standby then rb_count (r_buckets r i) s - 1
        else rb_count (r_buckets r i) s)"
    using pb st by (simp add: ff r2_def r1_def setAttemptState_count)
  show "State (r_atts (promote r p) q) = (if q = p then Waiting else State (r_atts r q))"
    "NextTime (r_atts (promote r p) q) =
       (if q = p then Clock (r_cfg r) else NextTime (r_atts r q))"
    "Node (r_atts (promote r p) q) = Node (r_atts r q)"
    "Ticket (r_atts (promote r p) q) = Ticket (r_atts r q)"
    "TotalWaitTime (r_atts (promote r p) q) = TotalWaitTime (r_atts r q)"
    "bucket (r_atts (promote r p) q) = bucket (r_atts r q)"
    by (simp_all add: ff r2_def r1_def)
  show "set (r_heap (promote r p)) = insert p (set (r_heap r))" by (rule pp(2))
  show "q \<notin> insert p (set (r_heap r)) \<Longrightarrow> r_atts (promote r p) q = r_atts r q"
    using ff(11) [of q] by (auto simp: r2_def r1_def)
qed

lemma promote_state_ids:
  assumes inv: "reg_inv r" and l: "rb_att (r_buckets r b) nid = Some p"
    and st: "State (r_atts r p) = Standby"
  shows "state_ids (promote r p) i s =
     (if i = b then (if s = Waiting then insert nid (state_ids r b s) else state_ids r b s - {nid})
      else state_ids r i s)"
proof -
  have lk: "links_ok r" using inv by (simp add: reg_inv_def)
  have "state_ids (promote r p) i s = state_ids (setAttemptState r p Waiting) i s"
    by (simp add: state_ids_def promote_fields [OF inv l st])
  then show ?thesis by (simp add: setAttemptState_state_ids [OF lk l])
qed

lemma promote_counts_ok:
  assumes inv: "reg_inv r" and l: "rb_att (r_buckets r b) nid = Some p"
    and st: "State (r_atts r p) = Standby" and c: "counts_ok r"
  shows "counts_ok (promote r p)"
  unfolding counts_ok_def
proof (intro allI)
  fix i s
  have sc: "\<And>s. rb_count (r_buckets r i) s = int (card (state_ids r i s))"
    using c by (simp add: counts_ok_def)
  have m: "nid \<in> state_ids r b Standby" "nid \<notin> state_ids r b Waiting"
    "nid \<notin> state_ids r b Registered"
    using l st by (simp_all add: state_ids_def)
  have pos: "0 < card (state_ids r b Standby)"
    using m(1) by (simp add: card_gt_0_iff) blast
  show "rb_count (r_buckets (promote r p) i) s = int (card (state_ids (promote r p) i s))"
    using sc m pos
    by (cases s) (auto simp: promote_fields [OF inv l st] promote_state_ids [OF inv l st])
qed

lemma refillAttempts_consider:
  obtains (same) "refillAttempts ch r b = r"
      "RegBucketSize (r_cfg r) \<le> rb_count (r_buckets r b) Waiting \<or> state_ids r b Standby = {}"
    | (promoted) nid p where "rb_att (r_buckets r b) nid = Some p"
      "State (r_atts r p) = Standby"
      "rb_count (r_buckets r b) Waiting < RegBucketSize (r_cfg r)"
      "refillAttempts ch r b = promote r p"
  using refillAttempts_cases [of ch r b] by blast

text \<open>What \<open>refillAttempts\<close> never changes.\<close>

lemma refillAttempts_fields:
  assumes inv: "reg_inv r"
  shows "r_cfg (refillAttempts ch r b) = r_cfg r" "r_topic (refillAttempts ch r b) = r_topic r"
    "r_nalloc (refillAttempts ch r b) = r_nalloc r"
    "rb_att (r_buckets (refillAttempts ch r b) i) = rb_att (r_buckets r i)"
    "rb_dist (r_buckets (refillAttempts ch r b) i) = rb_dist (r_buckets r i)"
    "rb_count (r_buckets (refillAttempts ch r b) i) Registered = rb_count (r_buckets r i) Registered"
    "Node (r_atts (refillAttempts ch r b) q) = Node (r_atts r q)"
    "Ticket (r_atts (refillAttempts ch r b) q) = Ticket (r_atts r q)"
    "TotalWaitTime (r_atts (refillAttempts ch r b) q) = TotalWaitTime (r_atts r q)"
    "bucket (r_atts (refillAttempts ch r b) q) = bucket (r_atts r q)"
    "State (r_atts r q) \<noteq> Standby \<Longrightarrow>
       State (r_atts (refillAttempts ch r b) q) = State (r_atts r q)"
    "State (r_atts r q) \<noteq> Standby \<Longrightarrow> q \<notin> set (r_heap r) \<Longrightarrow>
       q \<notin> set (r_heap (refillAttempts ch r b)) \<and> r_atts (refillAttempts ch r b) q = r_atts r q"
    "set (r_heap r) \<subseteq> set (r_heap (refillAttempts ch r b))"
proof -
  let ?r' = "refillAttempts ch r b"
  have "r_cfg ?r' = r_cfg r \<and> r_topic ?r' = r_topic r \<and> r_nalloc ?r' = r_nalloc r \<and>
    rb_att (r_buckets ?r' i) = rb_att (r_buckets r i) \<and>
    rb_dist (r_buckets ?r' i) = rb_dist (r_buckets r i) \<and>
    rb_count (r_buckets ?r' i) Registered = rb_count (r_buckets r i) Registered \<and>
    Node (r_atts ?r' q) = Node (r_atts r q) \<and> Ticket (r_atts ?r' q) = Ticket (r_atts r q) \<and>
    TotalWaitTime (r_atts ?r' q) = TotalWaitTime (r_atts r q) \<and>
    bucket (r_atts ?r' q) = bucket (r_atts r q) \<and>
    (State (r_atts r q) \<noteq> Standby \<longrightarrow> State (r_atts ?r' q) = State (r_atts r q)) \<and>
    (State (r_atts r q) \<noteq> Standby \<longrightarrow> q \<notin> set (r_heap r) \<longrightarrow>
       q \<notin> set (r_heap ?r') \<and> r_atts ?r' q = r_atts r q) \<and>
    set (r_heap r) \<subseteq> set (r_heap ?r')"
  proof (cases rule: refillAttempts_consider [of ch r b])
    case same
    then show ?thesis by simp
  next
    case (promoted nid p)
    note pf = promote_fields [OF inv promoted(1,2)]
    have "State (r_atts r q) \<noteq> Standby \<Longrightarrow> q \<noteq> p" using promoted(2) by auto
    then show ?thesis
      unfolding promoted(4) using pf(14) [of q] by (auto simp: pf(1-13))
  qed
  then show "r_cfg (refillAttempts ch r b) = r_cfg r" "r_topic (refillAttempts ch r b) = r_topic r"
    "r_nalloc (refillAttempts ch r b) = r_nalloc r"
    "rb_att (r_buckets (refillAttempts ch r b) i) = rb_att (r_buckets r i)"
    "rb_dist (r_buckets (refillAttempts ch r b) i) = rb_dist (r_buckets r i)"
    "rb_count (r_buckets (refillAttempts ch r b) i) Registered = rb_count (r_buckets r i) Registered"
    "Node (r_atts (refillAttempts ch r b) q) = Node (r_atts r q)"
    "Ticket (r_atts (refillAttempts ch r b) q) = Ticket (r_atts r q)"
    "TotalWaitTime (r_atts (refillAttempts ch r b) q) = TotalWaitTime (r_atts r q)"
    "bucket (r_atts (refillAttempts ch r b) q) = bucket (r_atts r q)"
    "State (r_atts r q) \<noteq> Standby \<Longrightarrow>
       State (r_atts (refillAttempts ch r b) q) = State (r_atts r q)"
    "State (r_atts r q) \<noteq> Standby \<Longrightarrow> q \<notin> set (r_heap r) \<Longrightarrow>
       q \<notin> set (r_heap (refillAttempts ch r b)) \<and> r_atts (refillAttempts ch r b) q = r_atts r q"
    "set (r_heap r) \<subseteq> set (r_heap (refillAttempts ch r b))"
    by simp_all
qed

lemma refillAttempts_counts_ok:
  assumes inv: "reg_inv r" and c: "counts_ok r"
  shows "counts_ok (refillAttempts ch r b)"
proof (cases rule: refillAttempts_consider [of ch r b])
  case same
  then show ?thesis using c by simp
next
  case (promoted nid p)
  show ?thesis
    unfolding promoted(4) using inv promoted(1,2) c by (rule promote_counts_ok)
qed

lemma leading_zero_bits_from_ge:
  "m \<le> k \<Longrightarrow> (\<forall>j. m \<le> j \<and> j < k \<longrightarrow> \<not> bit x j) \<Longrightarrow> k - m \<le> leading_zero_bits_from k x"
proof (induction k)
  case 0
  then show ?case by simp
next
  case (Suc k)
  show ?case
  proof (cases "m = Suc k")
    case True
    then show ?thesis by simp
  next
    case False
    then have "m \<le> k" using Suc.prems by simp
    moreover have "\<not> bit x k" using Suc.prems \<open>m \<le> k\<close> by simp
    moreover have "\<forall>j. m \<le> j \<and> j < k \<longrightarrow> \<not> bit x j" using Suc.prems by simp
    ultimately show ?thesis using Suc.IH by (simp add: Suc_diff_le)
  qed
qed

lemma LogDist_le:
  assumes "m \<le> 256" "\<forall>j. m \<le> j \<and> j < 256 \<longrightarrow> \<not> bit (a XOR b) j"
  shows "LogDist a b \<le> int m"
proof -
  have "256 - m \<le> leading_zero_bits_from 256 (a XOR b)"
    using assms by (rule leading_zero_bits_from_ge)
  then have "256 - int m \<le> int (leading_zero_bits_from 256 (a XOR b))"
    using assms(1) by linarith
  then show ?thesis by (simp add: LogDist_def leading_zero_bits_def)
qed

lemma small_nat_bit: "k < 2 ^ m \<Longrightarrow> m \<le> j \<Longrightarrow> \<not> bit (k::nat) j"
proof -
  assume a: "k < 2 ^ m" "m \<le> j"
  have "(2::nat) ^ m \<le> 2 ^ j" using a(2) by (intro power_increasing) simp_all
  then have "k < 2 ^ j" using a(1) by (rule less_le_trans [rotated])
  then show ?thesis by (simp add: bit_iff_odd)
qed

lemma small_id_LogDist: "k < 32 \<Longrightarrow> LogDist 0 (of_nat k) \<le> 5"
  using LogDist_le [of 5 0 "of_nat k"] small_nat_bit [of k 5]
  by (simp add: bit_of_nat_iff)

lemma small_id_bucket:
  "r_topic r = 0 \<Longrightarrow> k < 32 \<Longrightarrow> nat (Registration_bucket r (of_nat k)) = 0"
  using small_id_LogDist [of k]
  by (simp add: Registration_bucket_def regTableDepth_def Let_def)

lemma small_id_inj: "k < 32 \<Longrightarrow> l < 32 \<Longrightarrow> (of_nat k :: ID) = of_nat l \<longleftrightarrow> k = l"
proof -
  assume a: "k < 32" "l < 32"
  have "(32::nat) \<le> 2 ^ 256" by simp
  then have "k < 2 ^ 256" "l < 2 ^ 256" using a by linarith+
  then show ?thesis by (simp add: word_of_nat_eq_iff take_bit_nat_eq_self)
qed

lemma AddNode_drop:
  "Node_ID n \<noteq> Self (r_cfg r) \<Longrightarrow>
   rb_att (r_buckets r (nat (Registration_bucket r (Node_ID n)))) (Node_ID n) = None \<Longrightarrow>
   regBucketMaxReplacements \<le> rb_count (r_buckets r (nat (Registration_bucket r (Node_ID n)))) Standby \<Longrightarrow>
   AddNode ch r n = r"
  by (simp add: AddNode_eq)

lemma AddNode_link:
  assumes "Node_ID n \<noteq> Self (r_cfg r)" "nat (Registration_bucket r (Node_ID n)) = b"
    "rb_att (r_buckets r b) (Node_ID n) = None"
    "rb_count (r_buckets r b) Standby < regBucketMaxReplacements"
  shows "AddNode ch r n = refillAttempts ch (link_new r n b) b"
  using assms by (simp add: AddNode_eq)

text \<open>Candidates of a bucket that has enough Waiting attempts are linked as Standby.\<close>

lemma AddNodes_fill:
  assumes "reg_inv r" "RegBucketSize (r_cfg r) \<le> rb_count (r_buckets r b) Waiting"
    "distinct (map Node_ID nodes)"
    "\<forall>n \<in> set nodes. Node_ID n \<noteq> Self (r_cfg r) \<and>
       nat (Registration_bucket r (Node_ID n)) = b \<and> rb_att (r_buckets r b) (Node_ID n) = None"
    "rb_count (r_buckets r b) Standby + int (length nodes) \<le> regBucketMaxReplacements"
  shows "rb_count (r_buckets (Registration_AddNodes ch r nodes) b) Standby =
           rb_count (r_buckets r b) Standby + int (length nodes) \<and>
         dom (rb_att (r_buckets (Registration_AddNodes ch r nodes) b)) =
           dom (rb_att (r_buckets r b)) \<union> Node_ID ` set nodes \<and>
         r_cfg (Registration_AddNodes ch r nodes) = r_cfg r \<and>
         r_topic (Registration_AddNodes ch r nodes) = r_topic r"
  using assms
proof (induction nodes arbitrary: r)
  case Nil
  then show ?case by simp
next
  case (Cons n nodes)
  let ?r1 = "link_new r n b"
  have n: "Node_ID n \<noteq> Self (r_cfg r)" "nat (Registration_bucket r (Node_ID n)) = b"
    "rb_att (r_buckets r b) (Node_ID n) = None"
    using Cons.prems(4) by simp_all
  have room: "rb_count (r_buckets r b) Standby < regBucketMaxReplacements"
    using Cons.prems(5) by simp
  have "AddNode ch r n = refillAttempts ch ?r1 b"
    using n room by (rule AddNode_link)
  also have "\<dots> = ?r1"
    using Cons.prems(2) by (simp add: refillAttempts_eq)
  finally have e: "AddNode ch r n = ?r1" .
  have i1: "reg_inv ?r1"
    using Cons.prems(1) n(3) room n(1) n(2) [symmetric] by (rule link_new_reg_inv)
  have p2: "RegBucketSize (r_cfg ?r1) \<le> rb_count (r_buckets ?r1 b) Waiting"
    using Cons.prems(2) by simp
  have p3: "distinct (map Node_ID nodes)" using Cons.prems(3) by simp
  have tp: "\<And>x. Registration_bucket ?r1 x = Registration_bucket r x"
    by (rule Registration_bucket_frame) simp
  have "Node_ID n \<notin> Node_ID ` set nodes" using Cons.prems(3) by simp
  then have ne: "\<And>m. m \<in> set nodes \<Longrightarrow> Node_ID m \<noteq> Node_ID n"
    by (metis imageI)
  have p4: "\<forall>m \<in> set nodes. Node_ID m \<noteq> Self (r_cfg ?r1) \<and>
       nat (Registration_bucket ?r1 (Node_ID m)) = b \<and> rb_att (r_buckets ?r1 b) (Node_ID m) = None"
    using Cons.prems(4) ne by (simp add: tp)
  have p5: "rb_count (r_buckets ?r1 b) Standby + int (length nodes) \<le> regBucketMaxReplacements"
    using Cons.prems(5) by simp
  from Cons.IH [OF i1 p2 p3 p4 p5] show ?case
    by (auto simp: e)
qed

lemma mk_node_simps [simp]:
  "Node_ID (mk_node k) = of_nat k" "Node_Seq (mk_node k) = 1"
  by (simp_all add: mk_node_def)

lemma NewRegistration_simps [simp]:
  "r_topic (NewRegistration topic config) = topic"
  "r_cfg (NewRegistration topic config) = config"
  "r_heap (NewRegistration topic config) = []"
  "r_nalloc (NewRegistration topic config) = 0"
  "rb_att (r_buckets (NewRegistration topic config) i) = Map.empty"
  "rb_count (r_buckets (NewRegistration topic config) i) s = 0"
  "rb_dist (r_buckets (NewRegistration topic config) i) = 217 + int i"
  by (simp_all add: NewRegistration_def regTableDepth_def)

lemma heap_Push_empty:
  "r_heap r = [] \<Longrightarrow> heap_Push r x = (set_index r x 0)\<lparr> r_heap := [x] \<rparr>"
  by (simp add: heap_Push_def regHeap_Push_def Let_def up_stop)

lemma node1_simps [simp]: "Node_ID node1 = 1" "Node_Seq node1 = 1"
  by (simp_all add: node1_def)

lemma r_one_eq: "r_one = promote (link_new (NewRegistration 0 cfg0) node1 0) 0"
proof -
  let ?r0 = "NewRegistration 0 cfg0"
  let ?r1 = "link_new ?r0 node1 0"
  have b: "nat (Registration_bucket ?r0 (Node_ID node1)) = 0"
    using small_id_bucket [of ?r0 1] by simp
  have "AddNode ch0 ?r0 node1 = refillAttempts ch0 ?r1 0"
    using b by (intro AddNode_link) (simp_all add: cfg0_def regBucketMaxReplacements_def)
  moreover have s: "standby_ids ?r1 0 = {1}"
    by (auto simp: standby_ids_def split: option.splits if_splits)
  have "refillAttempts ch0 ?r1 0 = promote ?r1 0"
    unfolding refillAttempts_eq s by (simp add: range_first_def ch0_def cfg0_def)
  ultimately show ?thesis by (simp add: r_one_def)
qed

lemma r_one_reachable: "reg_reachable r_one"
  unfolding r_one_def by (intro reg_reachable.intros)

lemma r_one_fields:
  "r_cfg r_one = cfg0" "r_topic r_one = 0" "r_nalloc r_one = 1" "r_heap r_one = [0]"
  "rb_att (r_buckets r_one 0) = [1 \<mapsto> 0]"
  "rb_count (r_buckets r_one 0) Waiting = 1" "rb_count (r_buckets r_one 0) Standby = 0"
  "rb_count (r_buckets r_one 0) Registered = 0"
  "r_atts r_one 0 = \<lparr> State = Waiting, NextTime = 0, Node = node1, Ticket = [],
      TotalWaitTime = 0, index = 0, bucket = 0 \<rparr>"
  by (simp_all add: r_one_eq promote_def Let_def heap_Push_empty setAttemptState_count cfg0_def)

lemma r_full_reachable: "reg_reachable r_full"
  unfolding r_full_def using r_one_reachable by (rule reg_reachable.intros)

lemma r_full_fields:
  "rb_count (r_buckets r_full 0) Standby = 20"
  "rb_att (r_buckets r_full 0) (of_nat 22) = None"
  "r_cfg r_full = cfg0" "r_topic r_full = 0"
proof -
  let ?nodes = "map mk_node [2..<22]"
  have inv: "reg_inv r_one" using r_one_reachable by (rule reg_reachable_inv)
  have p2: "RegBucketSize (r_cfg r_one) \<le> rb_count (r_buckets r_one 0) Waiting"
    by (simp add: r_one_fields cfg0_def)
  have "inj_on (of_nat :: nat \<Rightarrow> ID) {2..<22}"
  proof (rule inj_onI)
    fix x y :: nat
    assume "x \<in> {2..<22}" "y \<in> {2..<22}" and e: "(of_nat x :: ID) = of_nat y"
    then have "x < 32" "y < 32" unfolding atLeastLessThan_iff by linarith+
    then show "x = y" using e by (simp add: small_id_inj)
  qed
  then have "inj_on (of_nat :: nat \<Rightarrow> ID) (set [2..<22])"
    unfolding set_upt .
  then have p3: "distinct (map Node_ID ?nodes)"
    unfolding map_map distinct_map by (simp add: comp_def del: set_upt)
  have p4: "\<forall>n \<in> set ?nodes. Node_ID n \<noteq> Self (r_cfg r_one) \<and>
       nat (Registration_bucket r_one (Node_ID n)) = 0 \<and>
       rb_att (r_buckets r_one 0) (Node_ID n) = None"
  proof
    fix n assume "n \<in> set ?nodes"
    then have "n \<in> mk_node ` {2..<22}" unfolding set_map set_upt .
    then obtain k where k0: "n = mk_node k" "k \<in> {2..<22}" by (rule imageE)
    then have k: "n = mk_node k" "2 \<le> k" "k < 22"
      unfolding atLeastLessThan_iff by simp_all
    have "(of_nat k :: ID) \<noteq> of_nat 0" "(of_nat k :: ID) \<noteq> of_nat 1"
      using k small_id_inj [of k 0] small_id_inj [of k 1] by auto
    then show "Node_ID n \<noteq> Self (r_cfg r_one) \<and>
       nat (Registration_bucket r_one (Node_ID n)) = 0 \<and>
       rb_att (r_buckets r_one 0) (Node_ID n) = None"
      using k small_id_bucket [of r_one k] by (simp add: r_one_fields cfg0_def)
  qed
  have p5: "rb_count (r_buckets r_one 0) Standby + int (length ?nodes) \<le> regBucketMaxReplacements"
    by (simp add: r_one_fields regBucketMaxReplacements_def)
  note f = AddNodes_fill [OF inv p2 p3 p4 p5, of ch0, folded r_full_def]
  show "rb_count (r_buckets r_full 0) Standby = 20" "r_cfg r_full = cfg0" "r_topic r_full = 0"
    using f by (simp_all add: r_one_fields)
  from f have d: "dom (rb_att (r_buckets r_full 0)) =
      dom (rb_att (r_buckets r_one 0)) \<union> Node_ID ` set ?nodes"
    by blast
  have "(of_nat 22 :: ID) \<noteq> of_nat 1" using small_id_inj [of 22 1] by simp
  then have a: "(of_nat 22 :: ID) \<notin> dom (rb_att (r_buckets r_one 0))"
    by (simp add: r_one_fields)
  have b: "(of_nat 22 :: ID) \<notin> Node_ID ` set ?nodes"
  proof
    assume "(of_nat 22 :: ID) \<in> Node_ID ` set ?nodes"
    then have "(of_nat 22 :: ID) \<in> (\<lambda>k. of_nat k) ` {2..<22}"
      unfolding set_map set_upt image_image mk_node_simps .
    then obtain k where k: "(of_nat 22 :: ID) = of_nat k" "k \<in> {2..<22}" by (rule imageE)
    from k(2) have "k < 32" "k \<noteq> 22" unfolding atLeastLessThan_iff by linarith+
    then show False using k(1) small_id_inj [of 22 k] by simp
  qed
  from a b have "(of_nat 22 :: ID) \<notin> dom (rb_att (r_buckets r_full 0))"
    unfolding d by blast
  then show "rb_att (r_buckets r_full 0) (of_nat 22) = None" by blast
qed

lemma AddNodes_single [simp]: "Registration_AddNodes ch r [n] = AddNode ch r n"
  by simp

text \<open>
  C7. In every state that the operations can reach, a bucket holds at most 20 attempts
  in state Standby; \<open>AddNodes\<close> leaves the state as it is when the candidate is new
  and its bucket has 20 Standby attempts already.
\<close>

theorem standby_bound:
  assumes "reg_reachable r"
  shows "card (standby_ids r i) \<le> 20 \<and>
    (Node_ID n \<noteq> Self (r_cfg r) \<and>
     rb_att (r_buckets r (nat (Registration_bucket r (Node_ID n)))) (Node_ID n) = None \<and>
     20 \<le> card (standby_ids r (nat (Registration_bucket r (Node_ID n)))) \<longrightarrow>
     Registration_AddNodes ch r [n] = r)"
proof -
  have inv: "reg_inv r" using assms by (rule reg_reachable_inv)
  then have c: "\<And>j. rb_count (r_buckets r j) Standby = int (card (standby_ids r j))"
    "\<And>j. int (card (standby_ids r j)) \<le> regBucketMaxReplacements"
    by (simp_all add: reg_inv_def standby_counts_ok_def standby_ids_eq)
  have "card (standby_ids r i) \<le> 20"
    using c(2) [of i] by (simp add: regBucketMaxReplacements_def)
  moreover have "Registration_AddNodes ch r [n] = r"
    if "Node_ID n \<noteq> Self (r_cfg r)"
      "rb_att (r_buckets r (nat (Registration_bucket r (Node_ID n)))) (Node_ID n) = None"
      "20 \<le> card (standby_ids r (nat (Registration_bucket r (Node_ID n))))"
    using that c(1) [of "nat (Registration_bucket r (Node_ID n))"]
    by (simp add: AddNode_drop regBucketMaxReplacements_def)
  ultimately show ?thesis by blast
qed

theorem standby_bound_witness:
  "reg_reachable r_full \<and> card (standby_ids r_full 0) = 20 \<and>
   Node_ID (mk_node 22) \<noteq> Self (r_cfg r_full) \<and>
   nat (Registration_bucket r_full (Node_ID (mk_node 22))) = 0 \<and>
   rb_att (r_buckets r_full 0) (Node_ID (mk_node 22)) = None \<and>
   Registration_AddNodes ch0 r_full [mk_node 22] = r_full"
proof -
  have inv: "reg_inv r_full" using r_full_reachable by (rule reg_reachable_inv)
  then have "rb_count (r_buckets r_full 0) Standby = int (card (standby_ids r_full 0))"
    by (simp add: reg_inv_def standby_counts_ok_def standby_ids_eq)
  then have c: "card (standby_ids r_full 0) = 20" by (simp add: r_full_fields)
  have b: "nat (Registration_bucket r_full (Node_ID (mk_node 22))) = 0"
    using small_id_bucket [of r_full 22] by (simp add: r_full_fields)
  have s: "Node_ID (mk_node 22) \<noteq> Self (r_cfg r_full)"
    using small_id_inj [of 22 0] by (simp add: r_full_fields cfg0_def)
  have n: "rb_att (r_buckets r_full 0) (Node_ID (mk_node 22)) = None"
    unfolding mk_node_simps by (rule r_full_fields)
  show ?thesis
    using standby_bound [OF r_full_reachable, of 0 "mk_node 22" ch0] r_full_reachable c b s n
    by simp
qed

section \<open>Candidates that are known already\<close>

lemma AddNode_existing:
  assumes "Node_ID n \<noteq> Self (r_cfg r)"
    "rb_att (r_buckets r (nat (Registration_bucket r (Node_ID n)))) (Node_ID n) = Some p"
  shows "AddNode ch r n =
     (if Node_Seq (Node (r_atts r p)) < Node_Seq n
      then r\<lparr> r_atts := (r_atts r)(p := (r_atts r p)\<lparr> Node := n \<rparr>) \<rparr> else r)"
  using assms by (simp add: AddNode_eq)

text \<open>After \<open>AddNode\<close>, a second \<open>AddNode\<close> of the same record changes nothing.\<close>

lemma AddNode_idem:
  assumes inv: "reg_inv r"
  shows "AddNode ch' (AddNode ch r n) n = AddNode ch r n"
proof (cases "Node_ID n = Self (r_cfg r)")
  case True
  then show ?thesis by (simp add: AddNode_eq)
next
  case False
  let ?b = "nat (Registration_bucket r (Node_ID n))"
  show ?thesis
  proof (cases "rb_att (r_buckets r ?b) (Node_ID n)")
    case (Some p)
    let ?r' = "r\<lparr> r_atts := (r_atts r)(p := (r_atts r p)\<lparr> Node := n \<rparr>) \<rparr>"
    show ?thesis
    proof (cases "Node_Seq (Node (r_atts r p)) < Node_Seq n")
      case True
      then have e: "AddNode ch r n = ?r'" using False Some by (simp add: AddNode_existing)
      have b: "Registration_bucket ?r' (Node_ID n) = Registration_bucket r (Node_ID n)"
        by (rule Registration_bucket_frame) simp
      have "AddNode ch' ?r' n = ?r'"
        using False Some by (simp add: AddNode_eq b)
      then show ?thesis by (simp add: e)
    next
      case nl: False
      then have e: "AddNode ch r n = r" using False Some by (simp add: AddNode_existing)
      have "AddNode ch' r n = r" using False Some nl by (simp add: AddNode_existing)
      then show ?thesis by (simp add: e)
    qed
  next
    case None
    show ?thesis
    proof (cases "regBucketMaxReplacements \<le> rb_count (r_buckets r ?b) Standby")
      case True
      then have "\<And>c. AddNode c r n = r" using False None by (simp add: AddNode_drop)
      then show ?thesis by simp
    next
      case room: False
      let ?r1 = "link_new r n ?b"
      let ?r' = "refillAttempts ch ?r1 ?b"
      have e: "AddNode ch r n = ?r'"
        using False None room by (intro AddNode_link) simp_all
      have i1: "reg_inv ?r1"
        using inv None room False by (intro link_new_reg_inv) simp_all
      note f = refillAttempts_fields [OF i1, where ch = ch and b = "?b"]
      have b: "Registration_bucket ?r' (Node_ID n) = Registration_bucket r (Node_ID n)"
        by (rule Registration_bucket_frame) (simp add: f)
      have l: "rb_att (r_buckets ?r' ?b) (Node_ID n) = Some (r_nalloc r)"
        by (simp add: f)
      have nd: "Node (r_atts ?r' (r_nalloc r)) = n"
        by (simp add: f)
      have "AddNode ch' ?r' n = ?r'"
        using False l nd by (simp add: AddNode_eq b f(1))
      then show ?thesis by (simp add: e)
    qed
  qed
qed

text \<open>
  C8. A candidate whose identifier has an attempt in its bucket: the record of the
  attempt is replaced by the candidate iff the candidate's sequence number is higher;
  the attempt's state, index in the heap, ticket and time, every other attempt, the
  heap and the buckets stay as they are. Adding the same record a second time changes
  nothing.
\<close>

theorem add_existing:
  assumes "reg_reachable r"
  shows "(Node_ID n \<noteq> Self (r_cfg r) \<and>
      rb_att (r_buckets r (nat (Registration_bucket r (Node_ID n)))) (Node_ID n) = Some p \<longrightarrow>
      Node (r_atts (Registration_AddNodes ch r [n]) p) =
        (if Node_Seq (Node (r_atts r p)) < Node_Seq n then n else Node (r_atts r p)) \<and>
      State (r_atts (Registration_AddNodes ch r [n]) p) = State (r_atts r p) \<and>
      index (r_atts (Registration_AddNodes ch r [n]) p) = index (r_atts r p) \<and>
      Ticket (r_atts (Registration_AddNodes ch r [n]) p) = Ticket (r_atts r p) \<and>
      NextTime (r_atts (Registration_AddNodes ch r [n]) p) = NextTime (r_atts r p) \<and>
      TotalWaitTime (r_atts (Registration_AddNodes ch r [n]) p) = TotalWaitTime (r_atts r p) \<and>
      bucket (r_atts (Registration_AddNodes ch r [n]) p) = bucket (r_atts r p) \<and>
      (\<forall>q. q \<noteq> p \<longrightarrow> r_atts (Registration_AddNodes ch r [n]) q = r_atts r q) \<and>
      r_heap (Registration_AddNodes ch r [n]) = r_heap r \<and>
      r_buckets (Registration_AddNodes ch r [n]) = r_buckets r \<and>
      r_nalloc (Registration_AddNodes ch r [n]) = r_nalloc r) \<and>
    Registration_AddNodes ch' (Registration_AddNodes ch r [n]) [n] = Registration_AddNodes ch r [n]"
proof -
  have inv: "reg_inv r" using assms by (rule reg_reachable_inv)
  show ?thesis
    using AddNode_idem [OF inv, of ch' ch n]
    by (auto simp: AddNode_existing)
qed

theorem add_existing_witness:
  "reg_reachable r_one \<and> Node_ID node1b \<noteq> Self (r_cfg r_one) \<and>
   rb_att (r_buckets r_one (nat (Registration_bucket r_one (Node_ID node1b)))) (Node_ID node1b)
     = Some 0 \<and>
   Node (r_atts r_one 0) = node1 \<and>
   Node (r_atts (Registration_AddNodes ch0 r_one [node1b]) 0) = node1b \<and>
   State (r_atts (Registration_AddNodes ch0 r_one [node1b]) 0) = Waiting \<and>
   index (r_atts (Registration_AddNodes ch0 r_one [node1b]) 0) = 0 \<and>
   r_heap (Registration_AddNodes ch0 r_one [node1b]) = [0] \<and>
   Registration_AddNodes ch0 (Registration_AddNodes ch0 r_one [node1b]) [node1b]
     = Registration_AddNodes ch0 r_one [node1b]"
proof -
  have b: "nat (Registration_bucket r_one (Node_ID node1b)) = 0"
    using small_id_bucket [of r_one 1] by (simp add: r_one_fields node1b_def)
  have l: "rb_att (r_buckets r_one (nat (Registration_bucket r_one (Node_ID node1b))))
      (Node_ID node1b) = Some 0"
    unfolding b by (simp add: r_one_fields node1b_def)
  have s: "Node_ID node1b \<noteq> Self (r_cfg r_one)"
    by (simp add: r_one_fields node1b_def cfg0_def)
  show ?thesis
    using add_existing [OF r_one_reachable, of node1b 0 ch0 ch0] r_one_reachable l s
    by (simp add: r_one_fields node1b_def)
qed

section \<open>Tickets and the attempt queue\<close>

lemma r_one_buckets:
  "rb_att (r_buckets r_one i) = (if i = 0 then [1 \<mapsto> 0] else Map.empty)"
  "rb_count (r_buckets r_one i) s = (if i = 0 \<and> s = Waiting then 1 else 0)"
  "rb_dist (r_buckets r_one i) = 217 + int i"
  by (simp_all add: r_one_eq promote_def Let_def heap_Push_empty setAttemptState_count)

lemma StartRequest_r_one: "StartRequest r_one 0 = Inr r_flight"
  by (simp add: r_flight_def StartRequest_def r_one_fields heap_Remove_eq)

lemma r_flight_eq: "r_flight = (set_index r_one 0 (- 2))\<lparr> r_heap := [] \<rparr>"
  by (simp add: r_flight_def StartRequest_def r_one_fields heap_Remove_eq remove_sift_def
      regHeap_Pop_def Let_def set_index_def)

lemma r_flight_fields:
  "r_cfg r_flight = cfg0" "r_topic r_flight = 0" "r_nalloc r_flight = 1" "r_heap r_flight = []"
  "r_buckets r_flight = r_buckets r_one"
  "r_atts r_flight 0 = \<lparr> State = Waiting, NextTime = 0, Node = node1, Ticket = [],
      TotalWaitTime = 0, index = - 2, bucket = 0 \<rparr>"
  by (simp_all add: r_flight_eq r_one_fields)

lemma r_flight_reachable: "reg_reachable r_flight"
  using r_one_reachable _ StartRequest_r_one
  by (rule reg_reachable.intros) (simp add: r_one_fields)

lemma HandleTicketResponse_r_flight:
  "HandleTicketResponse r_flight 0 [170] 5000000000 = Inr r_ticket"
  by (simp add: r_ticket_def HandleTicketResponse_def validate_def r_flight_fields)

lemma r_ticket_cfg: "r_cfg r_ticket = cfg0"
  by (simp add: r_ticket_def HandleTicketResponse_def validate_def r_flight_fields Let_def
      heap_Push_empty)

lemma r_ticket_fields:
  "r_heap r_ticket = [0]"
  "r_atts r_ticket 0 = \<lparr> State = Waiting, NextTime = 5000000000, Node = node1, Ticket = [170],
      TotalWaitTime = 0, index = 0, bucket = 0 \<rparr>"
  by (simp_all add: r_ticket_def HandleTicketResponse_def validate_def r_flight_fields Let_def
      heap_Push_empty cfg0_def)

text \<open>
  C4. The field \<open>TotalWaitTime\<close> is documented as the time spent waiting so far, but no
  operation writes it (\<open>reg_reachable_wait_unwritten\<close> below: it is 0 in every reachable
  state). An attempt in flight that receives a ticket with a wait of 5 seconds: the
  ticket and the time of the next action are stored, the total wait time is 0 before
  and after.
\<close>

theorem ticket_response_total_wait_time:
  "StartRequest r_one 0 = Inr r_flight \<and>
   HandleTicketResponse r_flight 0 [170] 5000000000 = Inr r_ticket \<and>
   TotalWaitTime (r_atts r_flight 0) = 0 \<and>
   TotalWaitTime (r_atts r_ticket 0) = 0 \<and>
   Ticket (r_atts r_ticket 0) = [170] \<and>
   NextTime (r_atts r_ticket 0) = Clock (r_cfg r_flight) + 5000000000"
  by (simp add: StartRequest_r_one HandleTicketResponse_r_flight r_flight_fields r_ticket_fields
      cfg0_def)

lemma heap_frame_core: "heap_frame T r r' \<Longrightarrow> core (r_atts r' q) = core (r_atts r q)"
  by (simp add: heap_frame_def)

lemma removeAttempt_removed:
  assumes inv: "reg_inv r" and ok: "removeAttempt r a = Inr r'"
  shows "removed r a r'"
proof -
  from removeAttempt_props [OF inv ok] obtain r1 where
    s: "set (r_heap r') = set (r_heap r) - {a}" and
    fr: "heap_frame (set (r_heap r)) r r1" and
    r': "r' = unlink r1 a (Node_ID (Node (r_atts r a)))"
    by blast
  note f = heap_frame_fields [OF fr]
  show ?thesis
    unfolding removed_def
    using s by (simp add: r' f heap_frame_core [OF fr])
qed

lemma removed_gone:
  assumes "removed r a r'"
  shows "a \<notin> set (r_heap r')"
    "rb_att (r_buckets r' (bucket (r_atts r a))) (Node_ID (Node (r_atts r a))) = None"
    "State (r_atts r' a) = State (r_atts r a)" "bucket (r_atts r' a) = bucket (r_atts r a)"
proof -
  have c: "core (r_atts r' a) = core (r_atts r a)" using assms by (simp add: removed_def)
  show "a \<notin> set (r_heap r')"
    "rb_att (r_buckets r' (bucket (r_atts r a))) (Node_ID (Node (r_atts r a))) = None"
    using assms by (simp_all add: removed_def)
  show "State (r_atts r' a) = State (r_atts r a)" "bucket (r_atts r' a) = bucket (r_atts r a)"
    using core_fields [OF c] by simp_all
qed

text \<open>After the removal of an attempt, refilling its bucket does not bring it back.\<close>

lemma refill_after_removed:
  assumes inv': "reg_inv r'" and rm: "removed r a r'" and ns: "State (r_atts r a) \<noteq> Standby"
  shows "a \<notin> set (r_heap (refillAttempts ch r' b))"
    "rb_att (r_buckets (refillAttempts ch r' b) i) = rb_att (r_buckets r' i)"
proof -
  note g = removed_gone [OF rm]
  have "State (r_atts r' a) \<noteq> Standby" using ns g by simp
  then show "a \<notin> set (r_heap (refillAttempts ch r' b))"
    using refillAttempts_fields(12) [OF inv', of a ch b] g(1) by simp
  show "rb_att (r_buckets (refillAttempts ch r' b) i) = rb_att (r_buckets r' i)"
    by (rule refillAttempts_fields [OF inv'])
qed

lemma Update_empty: "r_heap r = [] \<Longrightarrow> Update ch r = Inr (r, None)"
  by (simp add: Update_def)

text \<open>
  C3. \<open>Update\<close> looks at the top of the heap, \<open>r_heap r ! 0\<close>. A Waiting attempt whose
  time has come is returned and the state is unchanged. A Registered attempt whose time
  has come (and that is still linked in its bucket) is removed from its bucket and from
  the heap, its bucket is refilled, and the result is \<open>None\<close>. A Waiting or Registered
  attempt whose time is in the future: \<open>None\<close>, state unchanged. A Standby attempt on
  the heap is a panic. (In a run in which every request is answered once, every attempt
  on the heap is linked in its bucket: \<open>reg_run_heap_live\<close> below.)
\<close>

theorem Update_top:
  assumes "r_heap r \<noteq> []"
  shows "(State (r_atts r (r_heap r ! 0)) = Waiting \<and>
      word_sle (NextTime (r_atts r (r_heap r ! 0))) (Clock (r_cfg r)) \<longrightarrow>
      Update ch r = Inr (r, Some (r_heap r ! 0))) \<and>
    (State (r_atts r (r_heap r ! 0)) = Registered \<and>
      word_sle (NextTime (r_atts r (r_heap r ! 0))) (Clock (r_cfg r)) \<and>
      reg_reachable r \<and> live r (r_heap r ! 0) \<longrightarrow>
      (\<exists>r1. removeAttempt r (r_heap r ! 0) = Inr r1 \<and> removed r (r_heap r ! 0) r1 \<and>
         Update ch r = Inr (refillAttempts ch r1 (bucket (r_atts r (r_heap r ! 0))), None) \<and>
         r_heap r ! 0 \<notin> set (r_heap (refillAttempts ch r1 (bucket (r_atts r (r_heap r ! 0))))) \<and>
         rb_att (r_buckets (refillAttempts ch r1 (bucket (r_atts r (r_heap r ! 0))))
                  (bucket (r_atts r (r_heap r ! 0))))
           (Node_ID (Node (r_atts r (r_heap r ! 0)))) = None)) \<and>
    (State (r_atts r (r_heap r ! 0)) \<noteq> Standby \<and>
      \<not> word_sle (NextTime (r_atts r (r_heap r ! 0))) (Clock (r_cfg r)) \<longrightarrow>
      Update ch r = Inr (r, None)) \<and>
    (State (r_atts r (r_heap r ! 0)) = Standby \<longrightarrow> Update ch r = Inl StandbyInHeap)"
proof -
  let ?a = "r_heap r ! 0"
  let ?b = "bucket (r_atts r ?a)"
  have ne: "0 < length (r_heap r)" using assms by simp
  have w: "Update ch r = Inr (r, Some ?a)"
    if "State (r_atts r ?a) = Waiting" "word_sle (NextTime (r_atts r ?a)) (Clock (r_cfg r))"
    using that ne by (simp add: Update_def)
  have f: "Update ch r = Inr (r, None)"
    if "State (r_atts r ?a) \<noteq> Standby" "\<not> word_sle (NextTime (r_atts r ?a)) (Clock (r_cfg r))"
    using that ne by (cases "State (r_atts r ?a)") (simp_all add: Update_def)
  have s: "Update ch r = Inl StandbyInHeap" if "State (r_atts r ?a) = Standby"
    using that ne by (simp add: Update_def)
  have g: "\<exists>r1. removeAttempt r ?a = Inr r1 \<and> removed r ?a r1 \<and>
         Update ch r = Inr (refillAttempts ch r1 ?b, None) \<and>
         ?a \<notin> set (r_heap (refillAttempts ch r1 ?b)) \<and>
         rb_att (r_buckets (refillAttempts ch r1 ?b) ?b) (Node_ID (Node (r_atts r ?a))) = None"
    if st: "State (r_atts r ?a) = Registered"
      and t: "word_sle (NextTime (r_atts r ?a)) (Clock (r_cfg r))"
      and re: "reg_reachable r" and lv: "live r ?a"
  proof -
    have inv: "reg_inv r" using re by (rule reg_reachable_inv)
    from removeAttempt_ok [OF inv lv] obtain r1 where r1: "removeAttempt r ?a = Inr r1" ..
    have rm: "removed r ?a r1" using inv r1 by (rule removeAttempt_removed)
    have inv1: "reg_inv r1" using removeAttempt_props [OF inv r1] by simp
    note g = removed_gone [OF rm]
    have ns: "State (r_atts r ?a) \<noteq> Standby" using st by simp
    note ra = refill_after_removed [OF inv1 rm ns]
    have "Update ch r = Inr (refillAttempts ch r1 ?b, None)"
      using st t ne r1 g(4) by (simp add: Update_def)
    then show ?thesis using r1 rm ra g(2) by auto
  qed
  show ?thesis using w f s g by blast
qed

lemma r_reg_eq: "r_reg = registered r_flight 0 0"
proof -
  let ?r = "registered r_flight 0 0"
  have b: "bucket (r_atts ?r 0) = 0"
    by (simp add: registered_def Let_def heap_Push_empty r_flight_fields)
  have "standby_ids ?r 0 = {}"
    by (auto simp: standby_ids_def registered_def Let_def heap_Push_empty r_flight_fields
        r_one_buckets split: option.splits if_splits)
  then have "refillAttempts ch0 ?r 0 = ?r"
    by (simp add: refillAttempts_eq)
  then show ?thesis
    by (simp add: r_reg_def HandleRegistered_eq r_flight_fields b)
qed

lemma HandleRegistered_r_flight: "HandleRegistered ch0 r_flight 0 0 = Inr r_reg"
proof -
  have "index (r_atts r_flight 0) = - 2" by (simp add: r_flight_fields)
  then obtain r' where "HandleRegistered ch0 r_flight 0 0 = Inr r'"
    by (simp add: HandleRegistered_eq)
  then show ?thesis by (simp add: r_reg_def)
qed

lemma r_reg_reachable: "reg_reachable r_reg"
  using r_flight_reachable _ HandleRegistered_r_flight
  by (rule reg_reachable.intros) (simp add: r_flight_fields)

lemma r_reg_fields:
  "r_cfg r_reg = cfg0" "r_topic r_reg = 0" "r_nalloc r_reg = 1" "r_heap r_reg = [0]"
  "rb_att (r_buckets r_reg i) = (if i = 0 then [1 \<mapsto> 0] else Map.empty)"
  "rb_count (r_buckets r_reg i) s = (if i = 0 \<and> s = Registered then 1 else 0)"
  "rb_dist (r_buckets r_reg i) = 217 + int i"
  "r_atts r_reg 0 = \<lparr> State = Registered, NextTime = 0, Node = node1, Ticket = [],
      TotalWaitTime = 0, index = 0, bucket = 0 \<rparr>"
  by (simp_all add: r_reg_eq registered_def Let_def heap_Push_empty r_flight_fields
      r_one_buckets setAttemptState_count cfg0_def)

lemma r_bad_fields:
  "r_heap r_bad = [0]" "State (r_atts r_bad 0) = Standby"
  by (simp_all add: r_bad_def r_one_fields)

theorem Update_top_witness:
  "Update ch0 r_one = Inr (r_one, Some 0) \<and>
   State (r_atts r_reg 0) = Registered \<and> reg_reachable r_reg \<and> live r_reg 0 \<and>
   (\<exists>r1. removeAttempt r_reg 0 = Inr r1 \<and> removed r_reg 0 r1 \<and>
      Update ch0 r_reg = Inr (refillAttempts ch0 r1 0, None) \<and>
      0 \<notin> set (r_heap (refillAttempts ch0 r1 0)) \<and>
      rb_att (r_buckets (refillAttempts ch0 r1 0) 0) 1 = None) \<and>
   Update ch0 r_ticket = Inr (r_ticket, None) \<and>
   Update ch0 r_bad = Inl StandbyInHeap"
proof -
  have lv: "live r_reg 0" by (simp add: live_def r_reg_fields)
  have t: "\<not> word_sle (5000000000 :: AbsTime) 0" by (simp add: word_sle_eq)
  have "Update ch0 r_one = Inr (r_one, Some 0)"
    using Update_top [of r_one ch0] by (simp add: r_one_fields cfg0_def)
  moreover have "\<exists>r1. removeAttempt r_reg 0 = Inr r1 \<and> removed r_reg 0 r1 \<and>
      Update ch0 r_reg = Inr (refillAttempts ch0 r1 0, None) \<and>
      0 \<notin> set (r_heap (refillAttempts ch0 r1 0)) \<and>
      rb_att (r_buckets (refillAttempts ch0 r1 0) 0) 1 = None"
    using Update_top [of r_reg ch0] lv r_reg_reachable by (simp add: r_reg_fields cfg0_def)
  moreover have "Update ch0 r_ticket = Inr (r_ticket, None)"
    using Update_top [of r_ticket ch0] t
    by (simp add: r_ticket_fields r_ticket_cfg cfg0_def)
  moreover have "Update ch0 r_bad = Inl StandbyInHeap"
    using Update_top [of r_bad ch0] by (simp add: r_bad_fields)
  ultimately show ?thesis using lv r_reg_reachable by (simp add: r_reg_fields)
qed

section \<open>Failed requests and lookup targets\<close>

lemma removeAttempt_counts_ok:
  assumes inv: "reg_inv r" and c: "counts_ok r" and ok: "removeAttempt r a = Inr r'"
  shows "counts_ok r'"
proof -
  from removeAttempt_props [OF inv ok] obtain r1 where
    lv: "live r a" and fr: "heap_frame (set (r_heap r)) r r1" and
    r': "r' = unlink r1 a (Node_ID (Node (r_atts r a)))"
    by blast
  note f = heap_frame_fields [OF fr]
  have c1: "counts_ok r1" using c heap_frame_counts_ok [OF fr] by simp
  have l1: "rb_att (r_buckets r1 (bucket (r_atts r1 a))) (Node_ID (Node (r_atts r a))) = Some a"
    using lv by (simp add: live_def f)
  show ?thesis unfolding r' using c1 l1 by (rule unlink_counts_ok)
qed

lemma removed_trans_frame:
  assumes fr: "heap_frame T r r1" and s: "set (r_heap r1) = set (r_heap r) - {a}"
    and rm: "removed r1 a r2"
  shows "removed r a r2"
proof -
  note f = heap_frame_fields [OF fr]
  have c: "\<And>q. core (r_atts r1 q) = core (r_atts r q)" using fr by (rule heap_frame_core)
  show ?thesis
    using rm s unfolding removed_def by (auto simp: f c)
qed

text \<open>
  C5. An attempt that is Waiting on the heap and linked in its bucket \<open>b\<close>: after
  \<open>StartRequest\<close> and \<open>HandleErrorResponse\<close> the attempt is gone from the heap and from
  the map of \<open>b\<close>, the count of its state is decremented, the bucket has been refilled,
  and every other entry of every bucket's map is as before. If the counts of the buckets
  agreed with their maps before, they do so afterwards: nothing of the attempt is left.
  (In a run in which every request is answered once, the attempts on the heap are
  linked and the counts agree with the maps: \<open>reg_run_inv\<close>, \<open>reg_run_heap_live\<close> below.)
\<close>

theorem start_error_removes:
  assumes "reg_reachable r" "a < r_nalloc r" "State (r_atts r a) = Waiting"
    "0 \<le> index (r_atts r a)" "live r a"
  shows "\<exists>r1 r2. StartRequest r a = Inr r1 \<and> removeAttempt r1 a = Inr r2 \<and>
      HandleErrorResponse ch r1 a = Inr (refillAttempts ch r2 (bucket (r_atts r a))) \<and>
      removed r a r2 \<and>
      a \<notin> set (r_heap (refillAttempts ch r2 (bucket (r_atts r a)))) \<and>
      (\<forall>i. rb_att (r_buckets (refillAttempts ch r2 (bucket (r_atts r a))) i) =
         (if i = bucket (r_atts r a)
          then (rb_att (r_buckets r i))(Node_ID (Node (r_atts r a)) := None)
          else rb_att (r_buckets r i))) \<and>
      (counts_ok r \<longrightarrow> counts_ok (refillAttempts ch r2 (bucket (r_atts r a))))"
proof -
  let ?b = "bucket (r_atts r a)"
  have inv: "reg_inv r" using assms(1) by (rule reg_reachable_inv)
  have "nat (index (r_atts r a)) < length (r_heap r)"
    using inv assms(2,4) by (simp add: reg_inv_def heap_inv_def)
  then obtain r0 where "heap_Remove r (index (r_atts r a)) = Inr r0"
    using heap_Remove_ok assms(4) by blast
  then obtain r1 where r1: "StartRequest r a = Inr r1"
    using assms(3) by (simp add: StartRequest_def)
  note sp = StartRequest_props [OF inv assms(2) r1]
  then have inv1: "reg_inv r1" and fr: "heap_frame (set (r_heap r)) r r1"
    and s1: "set (r_heap r1) = set (r_heap r) - {a}" and ix: "index (r_atts r1 a) = - 2"
    by simp_all
  have lv1: "live r1 a" using assms(5) heap_frame_live [OF fr] by simp
  from removeAttempt_ok [OF inv1 lv1] obtain r2 where r2: "removeAttempt r1 a = Inr r2" ..
  have inv2: "reg_inv r2" using removeAttempt_props [OF inv1 r2] by simp
  have rm1: "removed r1 a r2" using inv1 r2 by (rule removeAttempt_removed)
  have rm: "removed r a r2" using fr s1 rm1 by (rule removed_trans_frame)
  note g = removed_gone [OF rm]
  have g1: "bucket (r_atts r2 a) = ?b" using g(4) .
  have ns: "State (r_atts r a) \<noteq> Standby" using assms(3) by simp
  note ra = refill_after_removed [OF inv2 rm ns, of ch ?b]
  have h: "HandleErrorResponse ch r1 a = Inr (refillAttempts ch r2 ?b)"
    using ix r2 g1 by (simp add: HandleErrorResponse_eq)
  have att: "\<forall>i. rb_att (r_buckets (refillAttempts ch r2 ?b) i) =
         (if i = ?b then (rb_att (r_buckets r i))(Node_ID (Node (r_atts r a)) := None)
          else rb_att (r_buckets r i))"
    using rm by (simp add: ra(2) removed_def)
  have cnt: "counts_ok (refillAttempts ch r2 ?b)" if c: "counts_ok r"
  proof -
    have "counts_ok r1" using c heap_frame_counts_ok [OF fr] by simp
    then have "counts_ok r2" using r2 by (rule removeAttempt_counts_ok [OF inv1])
    then show ?thesis by (rule refillAttempts_counts_ok [OF inv2])
  qed
  show ?thesis
    using r1 r2 h rm ra(1) att cnt by blast
qed

theorem start_error_removes_witness:
  "reg_reachable r_one \<and> 0 < r_nalloc r_one \<and> State (r_atts r_one 0) = Waiting \<and>
   0 \<le> index (r_atts r_one 0) \<and> live r_one 0 \<and> counts_ok r_one \<and>
   (\<exists>r1 r2. StartRequest r_one 0 = Inr r1 \<and> removeAttempt r1 0 = Inr r2 \<and>
      HandleErrorResponse ch0 r1 0 = Inr (refillAttempts ch0 r2 0) \<and>
      removed r_one 0 r2 \<and>
      0 \<notin> set (r_heap (refillAttempts ch0 r2 0)) \<and>
      rb_att (r_buckets (refillAttempts ch0 r2 0) 0) = Map.empty \<and>
      counts_ok (refillAttempts ch0 r2 0))"
proof -
  have lv: "live r_one 0" by (simp add: live_def r_one_fields)
  have s: "\<And>i s. state_ids r_one i s = (if i = 0 \<and> s = Waiting then {1} else {})"
    by (auto simp: state_ids_def r_one_buckets r_one_fields split: if_splits)
  have c: "counts_ok r_one"
    unfolding counts_ok_def by (simp add: s r_one_buckets)
  have p: "0 < r_nalloc r_one" "State (r_atts r_one 0) = Waiting" "0 \<le> index (r_atts r_one 0)"
    by (simp_all add: r_one_fields)
  from start_error_removes [OF r_one_reachable p lv, of ch0] obtain r1 r2 where
    e: "StartRequest r_one 0 = Inr r1" "removeAttempt r1 0 = Inr r2"
      "HandleErrorResponse ch0 r1 0 = Inr (refillAttempts ch0 r2 (bucket (r_atts r_one 0)))"
      "removed r_one 0 r2"
      "0 \<notin> set (r_heap (refillAttempts ch0 r2 (bucket (r_atts r_one 0))))"
      "\<forall>i. rb_att (r_buckets (refillAttempts ch0 r2 (bucket (r_atts r_one 0))) i) =
         (if i = bucket (r_atts r_one 0)
          then (rb_att (r_buckets r_one i))(Node_ID (Node (r_atts r_one 0)) := None)
          else rb_att (r_buckets r_one i))"
      "counts_ok r_one \<longrightarrow> counts_ok (refillAttempts ch0 r2 (bucket (r_atts r_one 0)))"
    by blast
  have b: "bucket (r_atts r_one 0) = 0" by (simp add: r_one_fields)
  have m: "rb_att (r_buckets (refillAttempts ch0 r2 0) 0) = Map.empty"
    using e(6) by (simp add: r_one_fields)
  have "StartRequest r_one 0 = Inr r1 \<and> removeAttempt r1 0 = Inr r2 \<and>
      HandleErrorResponse ch0 r1 0 = Inr (refillAttempts ch0 r2 0) \<and>
      removed r_one 0 r2 \<and>
      0 \<notin> set (r_heap (refillAttempts ch0 r2 0)) \<and>
      rb_att (r_buckets (refillAttempts ch0 r2 0) 0) = Map.empty \<and>
      counts_ok (refillAttempts ch0 r2 0)"
    using e c m unfolding b by simp
  then show ?thesis
    using r_one_reachable p lv c by blast
qed

lemma LookupTarget_eq:
  "LookupTarget r rnd =
     (case find (\<lambda>i. rb_count (r_buckets r i) Registered = 0) [0..<regTableDepth] of
        Some i \<Rightarrow> RandomID (r_topic r) (rb_dist (r_buckets r i)) rnd
      | None \<Rightarrow> r_topic r)"
  by (simp add: LookupTarget_def Let_def)

lemma find_upt_Some:
  "find P [0..<n] = Some i \<longleftrightarrow> i < n \<and> P i \<and> (\<forall>j<i. \<not> P j)"
  by (auto simp: find_Some_iff)

lemma find_upt_None: "find P [0..<n] = None \<longleftrightarrow> (\<forall>i<n. \<not> P i)"
  by (auto simp: find_None_iff)

text \<open>
  C6. With the counts of Registered attempts in agreement with the buckets' maps (as
  they are while every request is answered once: \<open>reg_run_registered_counts_ok\<close>
  below), \<open>LookupTarget\<close> returns an
  identifier at the distance of the first bucket without a Registered attempt; it
  returns the topic itself exactly when every bucket has a Registered attempt; and on a
  fresh registration the identifier is at distance 217.
\<close>

theorem LookupTarget_distance:
  assumes "reg_reachable r" "registered_counts_ok r"
  shows "(\<forall>i. i < regTableDepth \<and> state_ids r i Registered = {} \<and>
        (\<forall>j<i. state_ids r j Registered \<noteq> {}) \<longrightarrow>
        LogDist (r_topic r) (LookupTarget r rnd) = rb_dist (r_buckets r i) \<and>
        rb_dist (r_buckets r i) = 217 + int i) \<and>
    (LookupTarget r rnd = r_topic r \<longleftrightarrow>
       (\<forall>i<regTableDepth. state_ids r i Registered \<noteq> {})) \<and>
    LogDist topic (LookupTarget (NewRegistration topic config) rnd) = 217"
proof -
  let ?P = "\<lambda>i. rb_count (r_buckets r i) Registered = 0"
  have inv: "reg_inv r" using assms(1) by (rule reg_reachable_inv)
  then have d: "\<And>i. rb_dist (r_buckets r i) = 217 + int i"
    by (simp add: reg_inv_def layout_ok_def)
  have P: "\<And>i. i < regTableDepth \<Longrightarrow> ?P i \<longleftrightarrow> state_ids r i Registered = {}"
    using assms(2) by (simp add: registered_counts_ok_def)
  have at: "LogDist (r_topic r) (RandomID (r_topic r) (rb_dist (r_buckets r i)) rnd) =
      rb_dist (r_buckets r i)" if "i < regTableDepth" for i
    using that by (intro LogDist_RandomID) (simp_all add: d regTableDepth_def)
  have a: "LogDist (r_topic r) (LookupTarget r rnd) = rb_dist (r_buckets r i) \<and>
        rb_dist (r_buckets r i) = 217 + int i"
    if i: "i < regTableDepth" and e: "state_ids r i Registered = {}"
      and f: "\<forall>j<i. state_ids r j Registered \<noteq> {}" for i
  proof -
    have "\<forall>j<i. \<not> ?P j" using f i P by simp
    then have "find ?P [0..<regTableDepth] = Some i"
      using i e P by (simp add: find_upt_Some)
    then show ?thesis using at [OF i] by (simp add: LookupTarget_eq d)
  qed
  have b: "LookupTarget r rnd = r_topic r \<longleftrightarrow>
       (\<forall>i<regTableDepth. state_ids r i Registered \<noteq> {})"
  proof (cases "find ?P [0..<regTableDepth]")
    case None
    then have "\<forall>i<regTableDepth. \<not> ?P i" by (simp add: find_upt_None)
    then have "\<forall>i<regTableDepth. state_ids r i Registered \<noteq> {}" using P by simp
    then show ?thesis using None by (simp add: LookupTarget_eq)
  next
    case (Some i)
    then have i: "i < regTableDepth" "?P i" by (simp_all add: find_upt_Some)
    then have e: "state_ids r i Registered = {}" using P by simp
    have "LogDist (r_topic r) (LookupTarget r rnd) = 217 + int i"
      using Some at [OF i(1)] by (simp add: LookupTarget_eq d)
    then have "LogDist (r_topic r) (LookupTarget r rnd) \<noteq> LogDist (r_topic r) (r_topic r)"
      by simp
    then have "LookupTarget r rnd \<noteq> r_topic r" by metis
    then show ?thesis using i(1) e by auto
  qed
  have "find (\<lambda>i. rb_count (r_buckets (NewRegistration topic config) i) Registered = 0)
      [0..<regTableDepth] = Some 0"
    by (simp add: find_upt_Some regTableDepth_def)
  then have c: "LogDist topic (LookupTarget (NewRegistration topic config) rnd) = 217"
    using LogDist_RandomID [of 217 topic rnd] by (simp add: LookupTarget_eq)
  show ?thesis using a b c by blast
qed

lemma r_reg_state_ids:
  "state_ids r_reg i s = (if i = 0 \<and> s = Registered then {1} else {})"
  by (auto simp: state_ids_def r_reg_fields split: if_splits)

theorem LookupTarget_distance_witness:
  "reg_reachable r_reg \<and> registered_counts_ok r_reg \<and>
   state_ids r_reg 0 Registered = {1} \<and> state_ids r_reg 1 Registered = {} \<and>
   LogDist (r_topic r_reg) (LookupTarget r_reg 12345) = 218 \<and>
   LookupTarget r_reg 12345 \<noteq> r_topic r_reg"
proof -
  have c: "registered_counts_ok r_reg"
    by (simp add: registered_counts_ok_def r_reg_state_ids r_reg_fields)
  note t = LookupTarget_distance [OF r_reg_reachable c, of 12345 0 cfg0]
  note t1 = t [THEN conjunct1, rule_format, of 1]
  note t2 = t [THEN conjunct2, THEN conjunct1]
  have one: "(1::nat) < regTableDepth" by (simp add: regTableDepth_def)
  have "\<forall>j<1. state_ids r_reg j Registered \<noteq> {}"
    by (simp add: r_reg_state_ids)
  then have "LogDist (r_topic r_reg) (LookupTarget r_reg 12345) = rb_dist (r_buckets r_reg 1)"
    using t1 one by (simp add: r_reg_state_ids)
  then have d: "LogDist (r_topic r_reg) (LookupTarget r_reg 12345) = 218"
    by (simp add: r_reg_fields)
  have "\<not> (\<forall>i<regTableDepth. state_ids r_reg i Registered \<noteq> {})"
  proof
    assume "\<forall>i<regTableDepth. state_ids r_reg i Registered \<noteq> {}"
    then have "state_ids r_reg 1 Registered \<noteq> {}" using one by blast
    then show False by (simp add: r_reg_state_ids)
  qed
  then have "LookupTarget r_reg 12345 \<noteq> r_topic r_reg" unfolding t2 .
  then show ?thesis
    using r_reg_reachable c d by (simp add: r_reg_state_ids)
qed

section \<open>Runs of a driver that keeps to its contract\<close>

text \<open>
  The runs of a driver that keeps to its contract: a response is only handed in for an
  attempt that has not been removed. (A ticket or a confirmation for an attempt that
  \<open>HandleErrorResponse\<close> or \<open>Update\<close> has removed would put a removed attempt on the
  heap.)
\<close>

lemma reg_run_reachable: "reg_run r \<Longrightarrow> reg_reachable r"
  by (induction rule: reg_run.induct) (auto intro: reg_reachable.intros)

lemma live_cong:
  "r_buckets r' = r_buckets r \<Longrightarrow> bucket (r_atts r' p) = bucket (r_atts r p) \<Longrightarrow>
   Node (r_atts r' p) = Node (r_atts r p) \<Longrightarrow> live r' p = live r p"
  by (simp add: live_def)

lemma counts_ok_cong:
  "(\<And>i. rb_att (r_buckets r' i) = rb_att (r_buckets r i)) \<Longrightarrow>
   (\<And>i s. rb_count (r_buckets r' i) s = rb_count (r_buckets r i) s) \<Longrightarrow>
   (\<And>p. State (r_atts r' p) = State (r_atts r p)) \<Longrightarrow> counts_ok r' = counts_ok r"
  by (simp add: counts_ok_def state_ids_def)

text \<open>An update of an attempt that keeps its state, bucket and identifier.\<close>

lemma atts_update_run_inv:
  assumes inv: "run_inv r"
    and a: "State a' = State (r_atts r p)" "index a' = index (r_atts r p)"
      "bucket a' = bucket (r_atts r p)" "Node_ID (Node a') = Node_ID (Node (r_atts r p))"
  shows "run_inv (r\<lparr> r_atts := (r_atts r)(p := a') \<rparr>)"
proof -
  let ?r' = "r\<lparr> r_atts := (r_atts r)(p := a') \<rparr>"
  have "reg_inv ?r'" using inv a unfolding run_inv_def by (intro atts_update_reg_inv) simp_all
  moreover have "counts_ok ?r' = counts_ok r"
    using a by (intro counts_ok_cong) simp_all
  moreover have "\<And>q. live ?r' q = live r q"
    using a by (simp add: live_def)
  ultimately show ?thesis using inv by (simp add: run_inv_def heap_live_def)
qed

lemma heap_Push_run_inv:
  assumes inv: "run_inv r" and x: "x < r_nalloc r" "index (r_atts r x) < 0"
    "State (r_atts r x) \<noteq> Standby" "live r x"
  shows "run_inv (heap_Push r x)"
proof -
  have ri: "reg_inv r" and hi: "heap_inv r" using inv by (simp_all add: run_inv_def reg_inv_def)
  note p = heap_Push_props [OF hi x(1,2)]
  then have fr: "heap_frame (insert x (set (r_heap r))) r (heap_Push r x)" by simp
  have "reg_inv (heap_Push r x)" using ri x(1,2,3) by (rule heap_Push_reg_inv)
  moreover have "counts_ok (heap_Push r x)"
    using inv heap_frame_counts_ok [OF fr] by (simp add: run_inv_def)
  moreover have "heap_live (heap_Push r x)"
    using inv x(4) p by (auto simp: heap_live_def run_inv_def heap_frame_live [OF fr])
  ultimately show ?thesis by (simp add: run_inv_def)
qed

lemma promote_run_inv:
  assumes inv: "run_inv r" and l: "rb_att (r_buckets r b) nid = Some p"
    and st: "State (r_atts r p) = Standby"
  shows "run_inv (promote r p)"
proof -
  have ri: "reg_inv r" using inv by (simp add: run_inv_def)
  note pf = promote_fields [OF ri l st]
  have lk: "bucket (r_atts r p) = b" "Node_ID (Node (r_atts r p)) = nid"
    using ri l by (auto simp: reg_inv_def links_ok_def)
  have lv: "\<And>q. live (promote r p) q = live r q"
    by (simp add: live_def pf)
  have "live r p" using l lk by (simp add: live_def)
  then have "heap_live (promote r p)"
    using inv by (auto simp: heap_live_def run_inv_def lv pf(13))
  moreover have "reg_inv (promote r p)" using ri l st by (rule promote_reg_inv2)
  moreover have "counts_ok (promote r p)"
    using ri l st inv by (intro promote_counts_ok) (simp_all add: run_inv_def)
  ultimately show ?thesis by (simp add: run_inv_def)
qed

lemma refillAttempts_run_inv:
  assumes "run_inv r"
  shows "run_inv (refillAttempts ch r b)"
proof (cases rule: refillAttempts_consider [of ch r b])
  case same
  then show ?thesis using assms by simp
next
  case (promoted nid p)
  show ?thesis unfolding promoted(4) using assms promoted(1,2) by (rule promote_run_inv)
qed

lemma unlink_live:
  assumes "live r a" "live r q" "q \<noteq> a"
  shows "live (unlink r a (Node_ID (Node (r_atts r a)))) q"
  using assms by (auto simp: live_def)

lemma removeAttempt_run_inv:
  assumes inv: "run_inv r" and ok: "removeAttempt r a = Inr r'"
  shows "run_inv r'"
proof -
  have ri: "reg_inv r" and c: "counts_ok r" and hl: "heap_live r"
    using inv by (simp_all add: run_inv_def)
  from removeAttempt_props [OF ri ok] obtain r1 where
    lv: "live r a" and ri': "reg_inv r'" and s: "set (r_heap r') = set (r_heap r) - {a}" and
    fr: "heap_frame (set (r_heap r)) r r1" and
    r': "r' = unlink r1 a (Node_ID (Node (r_atts r a)))"
    by blast
  note f = heap_frame_fields [OF fr]
  have n: "Node (r_atts r1 a) = Node (r_atts r a)" by (rule f)
  have "heap_live r'"
    unfolding heap_live_def
  proof
    fix q assume "q \<in> set (r_heap r')"
    then have q: "q \<in> set (r_heap r)" "q \<noteq> a" using s by auto
    then have "live r1 q" "live r1 a"
      using hl lv by (simp_all add: heap_live_def heap_frame_live [OF fr])
    then show "live r' q"
      unfolding r' n [symmetric] using q(2) by (intro unlink_live)
  qed
  moreover have "counts_ok r'" using ri c ok by (rule removeAttempt_counts_ok)
  ultimately show ?thesis using ri' by (simp add: run_inv_def)
qed

lemma link_new_live:
  assumes "rb_att (r_buckets r b) (Node_ID n) = None" "live r q" "q \<noteq> r_nalloc r"
  shows "live (link_new r n b) q"
  using assms by (auto simp: live_def)

lemma AddNode_run_inv:
  assumes inv: "run_inv r"
  shows "run_inv (AddNode ch r n)"
proof (cases "Node_ID n = Self (r_cfg r)")
  case True
  then show ?thesis using inv by (simp add: AddNode_eq)
next
  case False
  have ri: "reg_inv r" and c: "counts_ok r" and hl: "heap_live r"
    using inv by (simp_all add: run_inv_def)
  let ?b = "nat (Registration_bucket r (Node_ID n))"
  show ?thesis
  proof (cases "rb_att (r_buckets r ?b) (Node_ID n)")
    case (Some p)
    have "Node_ID (Node (r_atts r p)) = Node_ID n"
      using ri Some by (simp add: reg_inv_def links_ok_def)
    then have "run_inv (r\<lparr> r_atts := (r_atts r)(p := (r_atts r p)\<lparr> Node := n \<rparr>) \<rparr>)"
      using inv by (intro atts_update_run_inv) simp_all
    then show ?thesis using False Some inv by (simp add: AddNode_eq)
  next
    case None
    show ?thesis
    proof (cases "rb_count (r_buckets r ?b) Standby \<ge> regBucketMaxReplacements")
      case True
      then show ?thesis using False None inv by (simp add: AddNode_eq)
    next
      case room: False
      let ?r1 = "link_new r n ?b"
      have r1: "reg_inv ?r1"
        using ri None room False by (intro link_new_reg_inv) simp_all
      have lk: "links_ok r" using ri by (simp add: reg_inv_def)
      have c1: "counts_ok ?r1" using c lk None by (rule link_new_counts_ok)
      have "\<And>q. q \<in> set (r_heap r) \<Longrightarrow> q \<noteq> r_nalloc r"
        using ri by (fastforce simp: reg_inv_def heap_inv_def in_set_conv_nth)
      then have "heap_live ?r1"
        using hl None by (auto simp: heap_live_def intro: link_new_live)
      then have "run_inv ?r1" using r1 c1 by (simp add: run_inv_def)
      then have "run_inv (refillAttempts ch ?r1 ?b)" by (rule refillAttempts_run_inv)
      then show ?thesis using False None room by (simp add: AddNode_eq)
    qed
  qed
qed

lemma Registration_AddNodes_run_inv:
  "run_inv r \<Longrightarrow> run_inv (Registration_AddNodes ch r nodes)"
  by (induction nodes arbitrary: r) (simp_all add: AddNode_run_inv)

lemma NewRegistration_run_inv: "run_inv (NewRegistration topic config)"
  by (simp add: run_inv_def NewRegistration_reg_inv counts_ok_def heap_live_def state_ids_def)

lemma advance_clock_run_inv: "run_inv r \<Longrightarrow> run_inv (advance_clock r t)"
proof -
  assume inv: "run_inv r"
  have "counts_ok (advance_clock r t) = counts_ok r"
    by (intro counts_ok_cong) (simp_all add: advance_clock_def)
  moreover have "\<And>q. live (advance_clock r t) q = live r q"
    by (simp add: live_def advance_clock_def)
  moreover have "r_heap (advance_clock r t) = r_heap r" by (simp add: advance_clock_def)
  ultimately show ?thesis
    using inv by (simp add: run_inv_def heap_live_def advance_clock_reg_inv)
qed

lemma Update_run_inv:
  assumes inv: "run_inv r" and ok: "Update ch r = Inr (r', res)"
  shows "run_inv r'"
proof (cases "r_heap r = []")
  case True
  then show ?thesis using ok inv by (simp add: Update_def)
next
  case False
  let ?a = "r_heap r ! 0"
  show ?thesis
  proof (cases "State (r_atts r ?a) = Registered \<and> word_sle (NextTime (r_atts r ?a)) (Clock (r_cfg r))")
    case True
    with ok False obtain r1 where r1: "removeAttempt r ?a = Inr r1"
      and r': "r' = refillAttempts ch r1 (bucket (r_atts r1 ?a))"
      by (auto simp: Update_def Let_def split: sum.splits)
    have "run_inv r1" using inv r1 by (rule removeAttempt_run_inv)
    then show ?thesis unfolding r' by (rule refillAttempts_run_inv)
  next
    case nr: False
    then have "r' = r"
      using ok False by (auto simp: Update_def Let_def split: RegAttemptState.splits if_splits)
    then show ?thesis using inv by simp
  qed
qed

lemma StartRequest_run_inv:
  assumes inv: "run_inv r" and an: "a < r_nalloc r" and ok: "StartRequest r a = Inr r'"
  shows "run_inv r'"
proof -
  have ri: "reg_inv r" using inv by (simp add: run_inv_def)
  note sp = StartRequest_props [OF ri an ok]
  then have fr: "heap_frame (set (r_heap r)) r r'" by simp
  have "counts_ok r'" using inv heap_frame_counts_ok [OF fr] by (simp add: run_inv_def)
  moreover have "heap_live r'"
    using inv sp by (auto simp: heap_live_def run_inv_def heap_frame_live [OF fr])
  ultimately show ?thesis using sp by (simp add: run_inv_def)
qed

lemma HandleTicketResponse_run_inv:
  assumes inv: "run_inv r" and an: "a < r_nalloc r" and lv: "live r a"
    and ok: "HandleTicketResponse r a ticket waitTime = Inr r'"
  shows "run_inv r'"
proof -
  have ri: "reg_inv r" using inv by (simp add: run_inv_def)
  from ok have ix: "index (r_atts r a) = - 2"
    by (auto simp: HandleTicketResponse_def validate_def split: if_splits)
  have ns: "State (r_atts r a) \<noteq> Standby" using ri an ix by (rule in_flight_not_standby)
  define r1 where "r1 = r\<lparr> r_atts := (r_atts r)(a := (r_atts r a)\<lparr> Ticket := ticket \<rparr>) \<rparr>"
  define r2 where "r2 = r1\<lparr> r_atts := (r_atts r1)
      (a := (r_atts r1 a)\<lparr> NextTime := Clock (r_cfg r1) + waitTime \<rparr>) \<rparr>"
  have r': "r' = heap_Push r2 a"
    using ok ix by (simp add: HandleTicketResponse_def validate_def Let_def r2_def r1_def)
  have i1: "run_inv r1" unfolding r1_def using inv by (rule atts_update_run_inv) simp_all
  have i2: "run_inv r2" unfolding r2_def using i1 by (rule atts_update_run_inv) simp_all
  have f: "r_nalloc r2 = r_nalloc r" "index (r_atts r2 a) = - 2" "State (r_atts r2 a) \<noteq> Standby"
    "live r2 a"
    using ix ns lv by (simp_all add: r2_def r1_def live_def)
  show ?thesis
    unfolding r' using i2 an f by (intro heap_Push_run_inv) simp_all
qed

lemma setAttemptState_counts_ok:
  assumes lk: "links_ok r" and lv: "live r p" and c: "counts_ok r"
  shows "counts_ok (setAttemptState r p st)"
  unfolding counts_ok_def
proof (intro allI)
  fix i s
  let ?b = "bucket (r_atts r p)"
  let ?nid = "Node_ID (Node (r_atts r p))"
  have l: "rb_att (r_buckets r ?b) ?nid = Some p" using lv by (simp add: live_def)
  have sc: "\<And>s. rb_count (r_buckets r i) s = int (card (state_ids r i s))"
    using c by (simp add: counts_ok_def)
  have m: "\<And>s. ?nid \<in> state_ids r ?b s \<longleftrightarrow> s = State (r_atts r p)"
    using l by (auto simp: state_ids_def)
  have pos: "0 < card (state_ids r ?b (State (r_atts r p)))"
    using m [of "State (r_atts r p)"] by (simp add: card_gt_0_iff) blast
  show "rb_count (r_buckets (setAttemptState r p st) i) s =
      int (card (state_ids (setAttemptState r p st) i s))"
  proof (cases "i = ?b")
    case False
    then show ?thesis
      using sc by (simp add: setAttemptState_count setAttemptState_state_ids [OF lk l])
  next
    case True
    show ?thesis
    proof (cases "State (r_atts r p) = st")
      case same: True
      then show ?thesis
        using True sc m
        by (auto simp: setAttemptState_count setAttemptState_state_ids [OF lk l] insert_absorb)
    next
      case diff: False
      then show ?thesis
        using True sc m pos
        by (auto simp: setAttemptState_count setAttemptState_state_ids [OF lk l])
    qed
  qed
qed

lemma registered_run_inv:
  assumes inv: "run_inv r" and an: "a < r_nalloc r" and ix: "index (r_atts r a) = - 2"
    and lv: "live r a"
  shows "run_inv (registered r a ttl)"
proof -
  have ri: "reg_inv r" using inv by (simp add: run_inv_def)
  have ns: "State (r_atts r a) \<noteq> Standby" using ri an ix by (rule in_flight_not_standby)
  define r1 where "r1 = setAttemptState r a Registered"
  define r2 where "r2 = r1\<lparr> r_atts := (r_atts r1)
      (a := (r_atts r1 a)\<lparr> NextTime := Clock (r_cfg r1) + ttl \<rparr>) \<rparr>"
  have "reg_inv r1" unfolding r1_def using ri ns by (rule setAttemptState_reg_inv) simp
  moreover have "counts_ok r1"
    unfolding r1_def using ri lv inv
    by (intro setAttemptState_counts_ok) (simp_all add: reg_inv_def run_inv_def)
  moreover have "\<And>q. live r1 q = live r q" by (simp add: live_def r1_def)
  then have "heap_live r1" using inv by (simp add: heap_live_def run_inv_def r1_def)
  ultimately have i1: "run_inv r1" by (simp add: run_inv_def)
  have i2: "run_inv r2" unfolding r2_def using i1 by (rule atts_update_run_inv) simp_all
  have f: "r_nalloc r2 = r_nalloc r" "index (r_atts r2 a) = - 2" "State (r_atts r2 a) \<noteq> Standby"
    "live r2 a"
    using ix lv by (simp_all add: r2_def r1_def live_def)
  have "run_inv (heap_Push r2 a)"
    using i2 an f by (intro heap_Push_run_inv) simp_all
  then show ?thesis unfolding registered_def Let_def r2_def r1_def .
qed

lemma HandleRegistered_run_inv:
  assumes inv: "run_inv r" and an: "a < r_nalloc r" and lv: "live r a"
    and ok: "HandleRegistered ch r a ttl = Inr r'"
  shows "run_inv r'"
proof -
  from ok have ix: "index (r_atts r a) = - 2"
    by (auto simp: HandleRegistered_eq split: if_splits)
  with ok have r': "r' = refillAttempts ch (registered r a ttl)
      (bucket (r_atts (registered r a ttl) a))"
    by (simp add: HandleRegistered_eq)
  show ?thesis
    unfolding r' using registered_run_inv [OF inv an ix lv] by (rule refillAttempts_run_inv)
qed

lemma HandleErrorResponse_run_inv:
  assumes inv: "run_inv r" and ok: "HandleErrorResponse ch r a = Inr r'"
  shows "run_inv r'"
proof -
  from ok obtain r1 where r1: "removeAttempt r a = Inr r1"
    and r': "r' = refillAttempts ch r1 (bucket (r_atts r1 a))"
    by (auto simp: HandleErrorResponse_eq split: if_splits sum.splits)
  have "run_inv r1" using inv r1 by (rule removeAttempt_run_inv)
  then show ?thesis unfolding r' by (rule refillAttempts_run_inv)
qed

text \<open>
  In the runs of a driver that keeps to its contract, the counts of every bucket agree
  with its map, and every attempt on the heap is linked in its bucket.
\<close>

lemma reg_run_inv: "reg_run r \<Longrightarrow> run_inv r"
proof (induction rule: reg_run.induct)
  case (run_new topic config)
  show ?case by (rule NewRegistration_run_inv)
next
  case (run_clock r t)
  then show ?case by (simp add: advance_clock_run_inv)
next
  case (run_AddNodes r ch nodes)
  then show ?case by (simp add: Registration_AddNodes_run_inv)
next
  case (run_Update r ch r' res)
  then show ?case using Update_run_inv by blast
next
  case (run_StartRequest r att r')
  then show ?case using StartRequest_run_inv by blast
next
  case (run_HandleTicketResponse r att ticket waitTime r')
  then show ?case using HandleTicketResponse_run_inv by blast
next
  case (run_HandleRegistered r att ch ttl r')
  then show ?case using HandleRegistered_run_inv by blast
next
  case (run_HandleErrorResponse r att ch r')
  then show ?case using HandleErrorResponse_run_inv by blast
qed

lemma reg_run_registered_counts_ok: "reg_run r \<Longrightarrow> registered_counts_ok r"
  using reg_run_inv [of r] by (simp add: run_inv_def counts_ok_def registered_counts_ok_def)

lemma reg_run_heap_live:
  assumes "reg_run r" "p \<in> set (r_heap r)"
  shows "live r p \<and> p < r_nalloc r \<and> 0 \<le> index (r_atts r p) \<and> State (r_atts r p) \<noteq> Standby"
proof -
  have inv: "run_inv r" using assms(1) by (rule reg_run_inv)
  then have ri: "reg_inv r" by (simp add: run_inv_def)
  have "live r p" using inv assms(2) by (simp add: run_inv_def heap_live_def)
  moreover have "p < r_nalloc r \<and> 0 \<le> index (r_atts r p)"
    using ri assms(2) by (fastforce simp: reg_inv_def heap_inv_def in_set_conv_nth)
  ultimately show ?thesis using heap_members_not_standby [OF ri assms(2)] by simp
qed

section \<open>The total wait time is never written\<close>

lemma wait_unwritten_cong:
  "(\<And>p. TotalWaitTime (r_atts r' p) = TotalWaitTime (r_atts r p)) \<Longrightarrow>
   wait_unwritten r \<Longrightarrow> wait_unwritten r'"
  by (simp add: wait_unwritten_def)

lemma refillAttempts_wait_unwritten:
  "reg_inv r \<Longrightarrow> wait_unwritten r \<Longrightarrow> wait_unwritten (refillAttempts ch r b)"
  by (rule wait_unwritten_cong) (simp_all add: refillAttempts_fields)

lemma removeAttempt_wait_unwritten:
  assumes "reg_inv r" "removeAttempt r a = Inr r'" "wait_unwritten r"
  shows "wait_unwritten r'"
proof -
  from removeAttempt_props [OF assms(1,2)] obtain r1 where
    fr: "heap_frame (set (r_heap r)) r r1" and
    r': "r' = unlink r1 a (Node_ID (Node (r_atts r a)))"
    by blast
  show ?thesis
    using assms(3) by (rule wait_unwritten_cong [rotated]) (simp add: r' heap_frame_fields [OF fr])
qed

lemma AddNode_wait_unwritten:
  assumes inv: "reg_inv r" and w: "wait_unwritten r"
  shows "wait_unwritten (AddNode ch r n)"
proof (cases "Node_ID n = Self (r_cfg r)")
  case True
  then show ?thesis using w by (simp add: AddNode_eq)
next
  case False
  let ?b = "nat (Registration_bucket r (Node_ID n))"
  show ?thesis
  proof (cases "rb_att (r_buckets r ?b) (Node_ID n)")
    case (Some p)
    then show ?thesis using False w by (simp add: AddNode_eq wait_unwritten_def)
  next
    case None
    show ?thesis
    proof (cases "rb_count (r_buckets r ?b) Standby \<ge> regBucketMaxReplacements")
      case True
      then show ?thesis using False None w by (simp add: AddNode_eq)
    next
      case room: False
      have "reg_inv (link_new r n ?b)"
        using inv None room False by (intro link_new_reg_inv) simp_all
      moreover have "wait_unwritten (link_new r n ?b)"
        using w by (simp add: wait_unwritten_def)
      ultimately have "wait_unwritten (refillAttempts ch (link_new r n ?b) ?b)"
        by (rule refillAttempts_wait_unwritten)
      then show ?thesis using False None room by (simp add: AddNode_eq)
    qed
  qed
qed

lemma Registration_AddNodes_wait_unwritten:
  "reg_inv r \<Longrightarrow> wait_unwritten r \<Longrightarrow> wait_unwritten (Registration_AddNodes ch r nodes)"
  by (induction nodes arbitrary: r) (simp_all add: AddNode_wait_unwritten AddNode_reg_inv)

lemma Update_wait_unwritten:
  assumes inv: "reg_inv r" and ok: "Update ch r = Inr (r', res)" and w: "wait_unwritten r"
  shows "wait_unwritten r'"
proof (cases "r_heap r = []")
  case True
  then show ?thesis using ok w by (simp add: Update_def)
next
  case False
  let ?a = "r_heap r ! 0"
  show ?thesis
  proof (cases "State (r_atts r ?a) = Registered \<and> word_sle (NextTime (r_atts r ?a)) (Clock (r_cfg r))")
    case True
    with ok False obtain r1 where r1: "removeAttempt r ?a = Inr r1"
      and r': "r' = refillAttempts ch r1 (bucket (r_atts r1 ?a))"
      by (auto simp: Update_def Let_def split: sum.splits)
    have "reg_inv r1" using removeAttempt_props [OF inv r1] by simp
    moreover have "wait_unwritten r1" using inv r1 w by (rule removeAttempt_wait_unwritten)
    ultimately show ?thesis unfolding r' by (rule refillAttempts_wait_unwritten)
  next
    case nr: False
    then have "r' = r"
      using ok False by (auto simp: Update_def Let_def split: RegAttemptState.splits if_splits)
    then show ?thesis using w by simp
  qed
qed

lemma heap_Push_wait_unwritten:
  assumes "reg_inv r" "x < r_nalloc r" "index (r_atts r x) < 0" "wait_unwritten r"
  shows "wait_unwritten (heap_Push r x)"
proof -
  have hi: "heap_inv r" using assms(1) by (simp add: reg_inv_def)
  from heap_Push_props [OF hi assms(2,3)]
  have fr: "heap_frame (insert x (set (r_heap r))) r (heap_Push r x)" by simp
  show ?thesis
    using assms(4) by (rule wait_unwritten_cong [rotated]) (simp add: heap_frame_fields [OF fr])
qed

lemma HandleTicketResponse_wait_unwritten:
  assumes inv: "reg_inv r" and an: "a < r_nalloc r"
    and ok: "HandleTicketResponse r a ticket waitTime = Inr r'" and w: "wait_unwritten r"
  shows "wait_unwritten r'"
proof -
  from ok have ix: "index (r_atts r a) = - 2"
    by (auto simp: HandleTicketResponse_def validate_def split: if_splits)
  define r1 where "r1 = r\<lparr> r_atts := (r_atts r)(a := (r_atts r a)\<lparr> Ticket := ticket \<rparr>) \<rparr>"
  define r2 where "r2 = r1\<lparr> r_atts := (r_atts r1)
      (a := (r_atts r1 a)\<lparr> NextTime := Clock (r_cfg r1) + waitTime \<rparr>) \<rparr>"
  have r': "r' = heap_Push r2 a"
    using ok ix by (simp add: HandleTicketResponse_def validate_def Let_def r2_def r1_def)
  have i1: "reg_inv r1" unfolding r1_def using inv by (rule atts_update_reg_inv) simp_all
  have i2: "reg_inv r2" unfolding r2_def using i1 by (rule atts_update_reg_inv) simp_all
  have f: "a < r_nalloc r2" "index (r_atts r2 a) < 0" "wait_unwritten r2"
    using ix an w by (simp_all add: r2_def r1_def wait_unwritten_def)
  show ?thesis unfolding r' using i2 f by (rule heap_Push_wait_unwritten)
qed

lemma registered_wait_unwritten:
  assumes inv: "reg_inv r" and an: "a < r_nalloc r" and ix: "index (r_atts r a) = - 2"
    and w: "wait_unwritten r"
  shows "wait_unwritten (registered r a ttl)"
proof -
  have ns: "State (r_atts r a) \<noteq> Standby" using inv an ix by (rule in_flight_not_standby)
  define r1 where "r1 = setAttemptState r a Registered"
  define r2 where "r2 = r1\<lparr> r_atts := (r_atts r1)
      (a := (r_atts r1 a)\<lparr> NextTime := Clock (r_cfg r1) + ttl \<rparr>) \<rparr>"
  have i1: "reg_inv r1" unfolding r1_def using inv ns by (rule setAttemptState_reg_inv) simp
  have i2: "reg_inv r2" unfolding r2_def using i1 by (rule atts_update_reg_inv) simp_all
  have f: "a < r_nalloc r2" "index (r_atts r2 a) < 0" "wait_unwritten r2"
    using ix an w by (simp_all add: r2_def r1_def wait_unwritten_def)
  have "wait_unwritten (heap_Push r2 a)" using i2 f by (rule heap_Push_wait_unwritten)
  then show ?thesis unfolding registered_def Let_def r2_def r1_def .
qed

text \<open>
  No operation writes \<open>TotalWaitTime\<close>: it is 0 in every attempt of every state that
  the operations can reach.
\<close>

lemma reg_reachable_wait_unwritten: "reg_reachable r \<Longrightarrow> wait_unwritten r"
proof (induction rule: reg_reachable.induct)
  case (rr_new topic config)
  show ?case by (simp add: wait_unwritten_def NewRegistration_def zero_attempt_def)
next
  case (rr_clock r t)
  then show ?case by (simp add: wait_unwritten_def advance_clock_def)
next
  case (rr_AddNodes r ch nodes)
  then show ?case by (simp add: Registration_AddNodes_wait_unwritten reg_reachable_inv)
next
  case (rr_Update r ch r' res)
  then show ?case using Update_wait_unwritten reg_reachable_inv by blast
next
  case (rr_StartRequest r att r')
  have inv: "reg_inv r" using rr_StartRequest.hyps(1) by (rule reg_reachable_inv)
  from StartRequest_props [OF inv rr_StartRequest.hyps(2,3)]
  have fr: "heap_frame (set (r_heap r)) r r'" by simp
  show ?case
    using rr_StartRequest.IH
    by (rule wait_unwritten_cong [rotated]) (simp add: heap_frame_fields [OF fr])
next
  case (rr_HandleTicketResponse r att ticket waitTime r')
  then show ?case using HandleTicketResponse_wait_unwritten reg_reachable_inv by blast
next
  case (rr_HandleRegistered r att ch ttl r')
  have inv: "reg_inv r" using rr_HandleRegistered.hyps(1) by (rule reg_reachable_inv)
  from rr_HandleRegistered.hyps(3) have ix: "index (r_atts r att) = - 2"
    by (auto simp: HandleRegistered_eq split: if_splits)
  with rr_HandleRegistered.hyps(3) have r': "r' = refillAttempts ch (registered r att ttl)
      (bucket (r_atts (registered r att ttl) att))"
    by (simp add: HandleRegistered_eq)
  have "reg_inv (registered r att ttl)"
    using inv rr_HandleRegistered.hyps(2) ix by (rule registered_reg_inv)
  moreover have "wait_unwritten (registered r att ttl)"
    using inv rr_HandleRegistered.hyps(2) ix rr_HandleRegistered.IH
    by (rule registered_wait_unwritten)
  ultimately show ?case unfolding r' by (rule refillAttempts_wait_unwritten)
next
  case (rr_HandleErrorResponse r att ch r')
  have inv: "reg_inv r" using rr_HandleErrorResponse.hyps(1) by (rule reg_reachable_inv)
  from rr_HandleErrorResponse.hyps(3) obtain r1 where r1: "removeAttempt r att = Inr r1"
    and r': "r' = refillAttempts ch r1 (bucket (r_atts r1 att))"
    by (auto simp: HandleErrorResponse_eq split: if_splits sum.splits)
  have "reg_inv r1" using removeAttempt_props [OF inv r1] by simp
  moreover have "wait_unwritten r1"
    using inv r1 rr_HandleErrorResponse.IH by (rule removeAttempt_wait_unwritten)
  ultimately show ?case unfolding r' by (rule refillAttempts_wait_unwritten)
qed

end
